theory Spec2Isabelle
  imports Complex_Main "HOL-Library.Sublist" "HOL-Library.Word"
begin

chapter \<open>strato-db: the SQLite connection wrapper and the event dispatch engine\<close>

section \<open>JavaScript values and errors\<close>

text \<open>
  The values that reach the SQL layer are modelled as the primitive JavaScript values.
  A number is an integer from \<open>-2^53\<close> up to \<open>2^53 - 1\<close>, held as a signed word of 54
  bits: every such integer is a double, and its string conversion is its plain decimal
  notation. Fractions, NaN, the infinities and larger numbers (which print rounded, or in
  exponent form from \<open>1e21\<close> on) are not values of the model, and neither are arrays and
  objects. An exception is a value of type \<open>error\<close>: a \<open>TypeError\<close>, or an
  \<open>Error\<close> object with its optional \<open>code\<close> property and its message.
\<close>

datatype jsval = JUndefined | JNull | JBool bool | JNum "54 word" | JStr string

datatype error = TypeError string | Error "string option" string

fun code :: "error \<Rightarrow> string option" where
  "code (TypeError m) = None"
| "code (Error c m) = c"

fun message :: "error \<Rightarrow> string" where
  "message (TypeError m) = m"
| "message (Error c m) = m"

definition dq :: char where
  "dq = CHR 0x22"

definition sq :: char where
  "sq = CHR 0x27"

text \<open>Decimal rendering of a number, as \<open>Number.prototype.toString\<close> gives it for integers.\<close>

fun show_nat :: "nat \<Rightarrow> string" where
  "show_nat n =
     (if n < 10 then [''0123456789'' ! n]
      else show_nat (n div 10) @ [''0123456789'' ! (n mod 10)])"

declare show_nat.simps [simp del]

definition show_int :: "int \<Rightarrow> string" where
  "show_int i = (if i < 0 then ''-'' @ show_nat (nat (- i)) else show_nat (nat i))"

text \<open>
  \<open>js_String\<close> is the implicit conversion of string concatenation (\<open>out += val\<close>), total on
  every value. \<open>js_toString\<close> is the method call \<open>val.toString()\<close>, which throws a
  \<open>TypeError\<close> on \<open>undefined\<close> and \<open>null\<close>.
\<close>

fun js_String :: "jsval \<Rightarrow> string" where
  "js_String JUndefined = ''undefined''"
| "js_String JNull = ''null''"
| "js_String (JBool b) = (if b then ''true'' else ''false'')"
| "js_String (JNum n) = show_int (sint n)"
| "js_String (JStr s) = s"

fun js_toString :: "jsval \<Rightarrow> error + string" where
  "js_toString JUndefined = Inl (TypeError ''Cannot read properties of undefined'')"
| "js_toString JNull = Inl (TypeError ''Cannot read properties of null'')"
| "js_toString v = Inr (js_String v)"

section \<open>SQL templating\<close>

text \<open>\<open>s.replace(/x/g, r)\<close> for a one-character pattern: every occurrence is replaced.\<close>

definition replace_all :: "char \<Rightarrow> string \<Rightarrow> string \<Rightarrow> string" where
  "replace_all x r s = concat (map (\<lambda>c. if c = x then r else [c]) s)"

text \<open>\<open>quoteSqlId\<close>: the identifier in double quotes, every double quote inside doubled.\<close>

definition quoteSqlId :: "jsval \<Rightarrow> error + string" where
  "quoteSqlId s =
     (case js_toString s of
        Inl e \<Rightarrow> Inl e
      | Inr t \<Rightarrow> Inr ([dq] @ replace_all dq [dq, dq] t @ [dq]))"

text \<open>\<open>valToSql\<close>: a value as an SQL literal; strings in single quotes, every single quote doubled.\<close>

fun valToSql :: "jsval \<Rightarrow> string" where
  "valToSql (JBool b) = (if b then ''1'' else ''0'')"
| "valToSql (JNum n) = show_int (sint n)"
| "valToSql JNull = ''NULL''"
| "valToSql JUndefined = ''NULL''"
| "valToSql (JStr s) = [sq] @ replace_all sq [sq, sq] s @ [sq]"

text \<open>
  The modifier of a template piece is found by the regular expression
  \<open>/^(ID|JSON|LIT)\b/\<close>: one of the three words at the start of the piece, followed by
  a word boundary, that is by the end of the piece or a character outside \<open>[A-Za-z0-9_]\<close>.
\<close>

definition is_word_char :: "char \<Rightarrow> bool" where
  "is_word_char c =
     (let n = of_char c :: nat
      in (65 \<le> n \<and> n \<le> 90) \<or> (97 \<le> n \<and> n \<le> 122) \<or> (48 \<le> n \<and> n \<le> 57) \<or> n = 95)"

definition boundary :: "string \<Rightarrow> bool" where
  "boundary rest = (case rest of [] \<Rightarrow> True | c # _ \<Rightarrow> \<not> is_word_char c)"

definition find_mod :: "string \<Rightarrow> string option" where
  "find_mod str =
     (if take 2 str = ''ID'' \<and> boundary (drop 2 str) then Some ''ID''
      else if take 4 str = ''JSON'' \<and> boundary (drop 4 str) then Some ''JSON''
      else if take 3 str = ''LIT'' \<and> boundary (drop 3 str) then Some ''LIT''
      else None)"

text \<open>
  The loop of \<open>sql\<close> over the pieces \<open>strings[1..]\<close>; \<open>vals\<close> are the interpolations that
  remain (\<open>args[i]\<close> is \<open>undefined\<close> when there is none), \<open>out\<close> and \<open>vars\<close> the
  accumulators. \<open>JSON.stringify\<close> is a built-in of the language and is taken as the
  parameter \<open>stringify\<close>. An exception of \<open>quoteSqlId\<close> leaves the loop.
\<close>

fun sql_loop ::
  "(jsval \<Rightarrow> jsval) \<Rightarrow> string list \<Rightarrow> jsval list \<Rightarrow> string \<Rightarrow> jsval list
     \<Rightarrow> error + (string \<times> jsval list)" where
  "sql_loop stringify [] vals out vars = Inr (out, vars)"
| "sql_loop stringify (piece # strings) vals out vars =
     (let val = (case vals of [] \<Rightarrow> JUndefined | v # _ \<Rightarrow> v);
          modifier = find_mod piece;
          str = (case modifier of Some m \<Rightarrow> drop (length m) piece | None \<Rightarrow> piece)
      in if modifier = Some ''ID'' then
           (case quoteSqlId val of
              Inl e \<Rightarrow> Inl e
            | Inr q \<Rightarrow> sql_loop stringify strings (tl vals) (out @ q @ str) vars)
         else if modifier = Some ''LIT'' then
           sql_loop stringify strings (tl vals) (out @ js_String val @ str) vars
         else
           sql_loop stringify strings (tl vals) (out @ ''?'' @ str)
             (vars @ [if modifier = Some ''JSON'' then stringify val else val]))"

text \<open>
  \<open>sql\<close> itself: \<open>out\<close> starts as \<open>strings[0]\<close>, which is \<open>undefined\<close> for an empty
  template array.
\<close>

fun sql :: "(jsval \<Rightarrow> jsval) \<Rightarrow> string list \<Rightarrow> jsval list \<Rightarrow> error + (jsval \<times> jsval list)" where
  "sql stringify [] vals = Inr (JUndefined, [])"
| "sql stringify (s0 # strings) vals =
     (case sql_loop stringify strings vals s0 [] of
        Inl e \<Rightarrow> Inl e
      | Inr (out, vars) \<Rightarrow> Inr (JStr out, vars))"

text \<open>
  An identifier body is well escaped when its double quotes come in pairs, so that no
  quote inside closes the identifier.
\<close>

fun quotes_paired :: "string \<Rightarrow> bool" where
  "quotes_paired [] = True"
| "quotes_paired [c] = (c \<noteq> dq)"
| "quotes_paired (c # d # cs) =
     (if c = dq then d = dq \<and> quotes_paired cs else quotes_paired (d # cs))"

text \<open>
  \<open>JSON.stringify\<close> on the values of the model, for the examples (\<open>sql\<close> itself takes it
  as a parameter): \<open>undefined\<close> stays \<open>undefined\<close>, \<open>null\<close>, booleans and numbers give
  their text, a string is put in double quotes with the double quote, the backslash and
  the control characters escaped.
\<close>

definition bsl :: char where
  "bsl = CHR 0x5C"

definition hex_digit :: "nat \<Rightarrow> char" where
  "hex_digit n = ''0123456789abcdef'' ! n"

definition json_escape :: "char \<Rightarrow> string" where
  "json_escape c =
     (let n = of_char c :: nat
      in if n = 8 then [bsl, CHR ''b'']
         else if n = 9 then [bsl, CHR ''t'']
         else if n = 10 then [bsl, CHR ''n'']
         else if n = 12 then [bsl, CHR ''f'']
         else if n = 13 then [bsl, CHR ''r'']
         else if c = dq then [bsl, dq]
         else if c = bsl then [bsl, bsl]
         else if n < 32 then
           [bsl, CHR ''u'', CHR ''0'', CHR ''0'', hex_digit (n div 16), hex_digit (n mod 16)]
         else [c])"

fun JSON_stringify :: "jsval \<Rightarrow> jsval" where
  "JSON_stringify JUndefined = JUndefined"
| "JSON_stringify JNull = JStr ''null''"
| "JSON_stringify (JBool b) = JStr (if b then ''true'' else ''false'')"
| "JSON_stringify (JNum n) = JStr (show_int (sint n))"
| "JSON_stringify (JStr s) = JStr ([dq] @ concat (map json_escape s) @ [dq])"

text \<open>
  What the helper is documented to do, stated on its own and not as a loop, to compare
  \<open>sql\<close> with. A piece carries a modifier when it starts with the word and a word
  boundary follows; the word characters are the letters, the digits and the underscore.
  One interpolation gives a text and the values it binds: an \<open>ID\<close> value is quoted as an
  identifier (its \<open>toString()\<close> throws on \<open>undefined\<close> and \<open>null\<close>), a \<open>LIT\<close> value is its
  own text, a \<open>JSON\<close> value is a placeholder that binds the serialisation, any other value
  is a placeholder that binds the value. The template gives its first string followed by
  the texts of the interpolations, in order, and binds their values, in order; a missing
  interpolation is \<open>undefined\<close>, and the first exception is the result.
\<close>

definition word_chars :: string where
  "word_chars = ''ABCDEFGHIJKLMNOPQRSTUVWXYZabcdefghijklmnopqrstuvwxyz0123456789_''"

definition has_modifier :: "string \<Rightarrow> string \<Rightarrow> bool" where
  "has_modifier m piece =
     (prefix m piece
      \<and> (case drop (length m) piece of [] \<Rightarrow> True | c # cs \<Rightarrow> c \<notin> set word_chars))"

definition interpolation ::
  "(jsval \<Rightarrow> jsval) \<Rightarrow> string \<Rightarrow> jsval \<Rightarrow> error + (string \<times> jsval list)" where
  "interpolation stringify piece v =
     (if has_modifier ''ID'' piece then
        (case v of
           JUndefined \<Rightarrow> Inl (TypeError ''Cannot read properties of undefined'')
         | JNull \<Rightarrow> Inl (TypeError ''Cannot read properties of null'')
         | _ \<Rightarrow> Inr ([dq] @ replace_all dq [dq, dq] (js_String v) @ [dq] @ drop 2 piece, []))
      else if has_modifier ''LIT'' piece then Inr (js_String v @ drop 3 piece, [])
      else if has_modifier ''JSON'' piece then Inr (''?'' @ drop 4 piece, [stringify v])
      else Inr (''?'' @ piece, [v]))"

fun args_for :: "nat \<Rightarrow> jsval list \<Rightarrow> jsval list" where
  "args_for 0 vals = []"
| "args_for (Suc n) [] = JUndefined # args_for n []"
| "args_for (Suc n) (v # vals) = v # args_for n vals"

fun collect :: "(error + (string \<times> jsval list)) list \<Rightarrow> error + (string \<times> jsval list)" where
  "collect [] = Inr ([], [])"
| "collect (Inl e # rs) = Inl e"
| "collect (Inr (s, vs) # rs) =
     (case collect rs of Inl e \<Rightarrow> Inl e | Inr (s', vs') \<Rightarrow> Inr (s @ s', vs @ vs'))"

definition sql_spec ::
  "(jsval \<Rightarrow> jsval) \<Rightarrow> string list \<Rightarrow> jsval list \<Rightarrow> error + (jsval \<times> jsval list)" where
  "sql_spec stringify strings vals =
     (case strings of
        [] \<Rightarrow> Inr (JUndefined, [])
      | s0 # pieces \<Rightarrow>
          (case collect (map2 (interpolation stringify) pieces (args_for (length pieces) vals)) of
             Inl e \<Rightarrow> Inl e
           | Inr (s, vs) \<Rightarrow> Inr (JStr (s0 @ s), vs)))"

section \<open>The SQLite connection: busy retry\<close>

definition RETRY_COUNT :: nat where
  "RETRY_COUNT = 10"

definition isBusyError :: "error \<Rightarrow> bool" where
  "isBusyError err = (code err = Some ''SQLITE_BUSY'')"

text \<open>
  The node-sqlite3 driver is the environment of the wrapper. It is a parameter: \<open>drv n\<close>
  is what the driver hands to the callback of the \<open>n\<close>-th query the connection issues,
  an error or the output.
\<close>

type_synonym driver = "nat \<Rightarrow> error + jsval"

text \<open>
  \<open>busyWait = () => wait(200 + Math.floor(Math.random() * 1000))\<close>: the milliseconds a
  busy wait lasts, as a function of the number \<open>Math.random()\<close> returns, which is at least
  0 and below 1.
\<close>

definition busyWait_ms :: "real \<Rightarrow> int" where
  "busyWait_ms random = 200 + \<lfloor>random * 1000\<rfloor>"

text \<open>
  What can be observed of a connection: every query handed to the driver, every busy wait
  (the trace records that the connection waited; for how long is \<open>busyWait_ms\<close> of the
  random number drawn), every event the connection emits, and every call of a transaction
  function, which carries a number \<open>fid\<close> to tell the functions apart. \<open>clock\<close> counts
  the queries the connection has handed to the driver.
\<close>

datatype occurrence = Query string | BusyWait | Emit string | Called nat

record conn =
  name :: string
  readOnly :: bool
  inTransaction :: bool
  clock :: nat
  trace :: "occurrence list"

definition busyWait :: "conn \<Rightarrow> conn" where
  "busyWait c = c\<lparr>trace := trace c @ [BusyWait]\<rparr>"

definition emit :: "string \<Rightarrow> conn \<Rightarrow> conn" where
  "emit ev c = c\<lparr>trace := trace c @ [Emit ev]\<rparr>"

text \<open>
  The callback loop of \<open>_call\<close> on an open connection and a method the driver has:
  \<open>runQuery\<close> hands the query to the driver; on a busy error with \<open>busyRetry\<close> left
  (\<open>busyRetry--\<close> is tested before it is decremented) the query is issued again after a
  busy wait; any other error rejects, wrapped in a new \<open>Error\<close> with the same code;
  an output resolves.
\<close>

function call_retry :: "driver \<Rightarrow> string \<Rightarrow> nat \<Rightarrow> conn \<Rightarrow> (error + jsval) \<times> conn" where
  "call_retry drv q busyRetry c =
     (let c1 = c\<lparr>clock := Suc (clock c), trace := trace c @ [Query q]\<rparr>
      in case drv (clock c) of
           Inr out \<Rightarrow> (Inr out, c1)
         | Inl err \<Rightarrow>
             if isBusyError err \<and> busyRetry \<noteq> 0
             then call_retry drv q (busyRetry - 1) (busyWait c1)
             else (Inl (Error (code err) (name c @ '': sqlite3: '' @ message err)), c1))"
  by pat_completeness auto
termination
  by (relation "measure (\<lambda>(drv, q, busyRetry, c). busyRetry)") auto

declare call_retry.simps [simp del]

definition sqlite_call :: "driver \<Rightarrow> string \<Rightarrow> conn \<Rightarrow> (error + jsval) \<times> conn" where
  "sqlite_call drv q c = call_retry drv q RETRY_COUNT c"

text \<open>\<open>exec\<close> awaits \<open>_call\<close> and returns nothing.\<close>

definition exec :: "driver \<Rightarrow> string \<Rightarrow> conn \<Rightarrow> (error + unit) \<times> conn" where
  "exec drv q c =
     (case sqlite_call drv q c of
        (Inl e, c') \<Rightarrow> (Inl e, c')
      | (Inr out, c') \<Rightarrow> (Inr (), c'))"

text \<open>
  \<open>busy_at drv n\<close>: the driver answers the \<open>n\<close>-th query with a busy error. \<open>waits\<close>
  and \<open>queries\<close> count the busy waits and the queries of a trace.
\<close>

definition busy_at :: "driver \<Rightarrow> nat \<Rightarrow> bool" where
  "busy_at drv n = (case drv n of Inl e \<Rightarrow> isBusyError e | Inr out \<Rightarrow> False)"

definition waits :: "conn \<Rightarrow> nat" where
  "waits c = length (filter (\<lambda>e. e = BusyWait) (trace c))"

definition queries :: "string \<Rightarrow> conn \<Rightarrow> nat" where
  "queries q c = length (filter (\<lambda>e. e = Query q) (trace c))"

text \<open>The connection after \<open>k\<close> busy answers to the query \<open>q\<close>, each followed by a busy wait.\<close>

definition retried :: "string \<Rightarrow> nat \<Rightarrow> conn \<Rightarrow> conn" where
  "retried q k c = c\<lparr>clock := clock c + k, trace := trace c @ concat (replicate k [Query q, BusyWait])\<rparr>"

text \<open>A driver that answers busy to its first \<open>m\<close> queries and succeeds from then on.\<close>

definition busy_until :: "nat \<Rightarrow> driver" where
  "busy_until m n =
     (if n < m then Inl (Error (Some ''SQLITE_BUSY'') ''SQLITE_BUSY: database is locked'')
      else Inr JUndefined)"

section \<open>The SQLite connection: transactions\<close>

text \<open>
  A transaction function is modelled by the number that identifies it in the trace and
  by how it settles once called: it throws an error or returns a value.
\<close>

datatype fn = Fn (fid: nat) (body: "error + jsval")

definition called :: "fn \<Rightarrow> conn \<Rightarrow> conn" where
  "called f c = c\<lparr>trace := trace c @ [Called (fid f)]\<rparr>"

text \<open>
  The part of \<open>__withTransaction\<close> after \<open>fn()\<close> has settled: on an exception
  \<open>ROLLBACK\<close>, the events \<open>rollback\<close> and \<open>finally\<close>, and the exception thrown again;
  on a value \<open>END\<close>, the events \<open>end\<close> and \<open>finally\<close>, and the value returned. When
  \<open>ROLLBACK\<close> or \<open>END\<close> itself fails, that error is thrown and nothing is emitted.
\<close>

definition settle_tx :: "driver \<Rightarrow> fn \<Rightarrow> conn \<Rightarrow> (error + jsval) \<times> conn" where
  "settle_tx drv f c =
     (case body f of
        Inl error \<Rightarrow>
          (case exec drv ''ROLLBACK'' c of
             (Inl e, c') \<Rightarrow> (Inl e, c')
           | (Inr u, c') \<Rightarrow>
               (Inl error, emit ''finally'' (emit ''rollback'' (c'\<lparr>inTransaction := False\<rparr>))))
      | Inr result \<Rightarrow>
          (case exec drv ''END'' c of
             (Inl e, c') \<Rightarrow> (Inl e, c')
           | (Inr u, c') \<Rightarrow>
               (Inr result, emit ''finally'' (emit ''end'' (c'\<lparr>inTransaction := False\<rparr>)))))"

text \<open>
  \<open>__withTransaction(fn, busyRetry)\<close>: \<open>BEGIN IMMEDIATE\<close>; on a busy error with
  \<open>busyRetry\<close> left, a busy wait and the whole function again with one retry less; on any
  other error, or with no retry left, the error is thrown; otherwise the event \<open>begin\<close>,
  the call of \<open>fn\<close>, and the commit or rollback. Listeners are taken not to throw.
\<close>

function do_withTransaction :: "driver \<Rightarrow> fn \<Rightarrow> nat \<Rightarrow> conn \<Rightarrow> (error + jsval) \<times> conn" where
  "do_withTransaction drv f busyRetry c =
     (case exec drv ''BEGIN IMMEDIATE'' (c\<lparr>inTransaction := True\<rparr>) of
        (Inr u, c1) \<Rightarrow> settle_tx drv f (called f (emit ''begin'' c1))
      | (Inl error, c1) \<Rightarrow>
          if isBusyError error \<and> busyRetry \<noteq> 0
          then do_withTransaction drv f (busyRetry - 1) (busyWait c1)
          else (Inl error, c1\<lparr>inTransaction := False\<rparr>))"
  by pat_completeness auto
termination
  by (relation "measure (\<lambda>(drv, f, busyRetry, c). busyRetry)") auto

declare do_withTransaction.simps [simp del]

text \<open>
  The same function cut at \<open>await fn()\<close>, where other code of the process can run:
  \<open>begin_tx\<close> is the part before the call of \<open>fn\<close> (\<open>None\<close> when the transaction has
  begun, the error otherwise), \<open>settle_tx\<close> the part after it.
\<close>

function begin_tx :: "driver \<Rightarrow> nat \<Rightarrow> conn \<Rightarrow> error option \<times> conn" where
  "begin_tx drv busyRetry c =
     (case exec drv ''BEGIN IMMEDIATE'' (c\<lparr>inTransaction := True\<rparr>) of
        (Inr u, c1) \<Rightarrow> (None, emit ''begin'' c1)
      | (Inl error, c1) \<Rightarrow>
          if isBusyError error \<and> busyRetry \<noteq> 0
          then begin_tx drv (busyRetry - 1) (busyWait c1)
          else (Some error, c1\<lparr>inTransaction := False\<rparr>))"
  by pat_completeness auto
termination
  by (relation "measure (\<lambda>(drv, busyRetry, c). busyRetry)") auto

declare begin_tx.simps [simp del]

text \<open>
  \<open>withTransaction\<close> and the promise chain. The state of the process, as far as
  transactions go: the connection; whether \<open>this._sqlite\<close> is set; the calls suspended at
  \<open>await this._hold('transaction')\<close>, oldest first; and the promises that
  \<open>this.transactionP = this.transactionP.then(nextTransaction, nextTransaction)\<close> has
  chained, oldest first, each with its function. Such a promise is \<open>Waiting\<close> until its
  \<open>then\<close> callback runs, \<open>Running\<close> while its \<open>__withTransaction\<close> awaits \<open>fn()\<close>, and
  then fulfilled or rejected. \<open>transactionP\<close> is the last of them, and
  \<open>Promise.resolve()\<close> before the first call.
\<close>

datatype tstate = Waiting | Running | Fulfilled jsval | Rejected error

record process =
  db :: conn
  opened :: bool
  holding :: "fn list"
  chain :: "(fn \<times> tstate) list"

definition transactionP :: "process \<Rightarrow> tstate" where
  "transactionP s = (if chain s = [] then Fulfilled JUndefined else snd (last (chain s)))"

text \<open>The promise that the \<open>i\<close>-th chained promise was chained to.\<close>

definition previous :: "process \<Rightarrow> nat \<Rightarrow> tstate" where
  "previous s i = (if i = 0 then Fulfilled JUndefined else snd (chain s ! (i - 1)))"

text \<open>
  \<open>p.then(onFulfilled, onRejected)\<close>: the callback that runs once \<open>p\<close> has settled; none
  runs while \<open>p\<close> is pending.
\<close>

definition promise_then :: "tstate \<Rightarrow> (jsval \<Rightarrow> 'a) \<Rightarrow> (error \<Rightarrow> 'a) \<Rightarrow> 'a option" where
  "promise_then p onFulfilled onRejected =
     (case p of
        Fulfilled v \<Rightarrow> Some (onFulfilled v)
      | Rejected e \<Rightarrow> Some (onRejected e)
      | Waiting \<Rightarrow> None
      | Running \<Rightarrow> None)"

definition settled :: "error + jsval \<Rightarrow> tstate" where
  "settled r = (case r of Inl e \<Rightarrow> Rejected e | Inr v \<Rightarrow> Fulfilled v)"

text \<open>Line 512: the call is chained to the current \<open>transactionP\<close>.\<close>

definition chain_call :: "fn \<Rightarrow> process \<Rightarrow> process" where
  "chain_call f s = s\<lparr>chain := chain s @ [(f, Waiting)]\<rparr>"

text \<open>
  \<open>nextTransaction\<close> of the \<open>i\<close>-th chained promise: \<open>__withTransaction(fn)\<close> with the
  default \<open>busyRetry\<close>, up to the call of \<open>fn\<close>. \<open>finish\<close> is the rest of it, once \<open>fn()\<close>
  has settled.
\<close>

definition nextTransaction :: "driver \<Rightarrow> nat \<Rightarrow> process \<Rightarrow> process" where
  "nextTransaction drv i s =
     (let f = fst (chain s ! i)
      in case begin_tx drv RETRY_COUNT (db s) of
           (Some e, c) \<Rightarrow> s\<lparr>db := c, chain := (chain s)[i := (f, Rejected e)]\<rparr>
         | (None, c) \<Rightarrow> s\<lparr>db := called f c, chain := (chain s)[i := (f, Running)]\<rparr>)"

definition finish :: "driver \<Rightarrow> nat \<Rightarrow> process \<Rightarrow> process" where
  "finish drv i s =
     (let f = fst (chain s ! i)
      in case settle_tx drv f (db s) of
           (r, c) \<Rightarrow> s\<lparr>db := c, chain := (chain s)[i := (f, settled r)]\<rparr>)"

text \<open>
  What can happen in the process, one action at a time. \<open>Call f\<close> is a call
  \<open>withTransaction(f)\<close>: it throws on a read-only connection, is chained at once when
  \<open>this._sqlite\<close> is set, and is suspended in \<open>_hold\<close> otherwise. \<open>Opened\<close> is \<open>_openDB\<close>
  setting \<open>this._sqlite\<close>. \<open>Resume\<close> is the oldest suspended call coming back from
  \<open>_hold\<close> and being chained. \<open>Start i\<close> is the \<open>then\<close> callback of the \<open>i\<close>-th chained
  promise running, which it can only once the promise it was chained to has settled.
  \<open>Finish i\<close> is the function of the \<open>i\<close>-th promise settling. An action that cannot happen
  in the state gives \<open>None\<close>. The opening is taken to succeed, and \<open>close\<close> is not
  modelled: once set, \<open>this._sqlite\<close> stays set. A transaction function that calls
  \<open>withTransaction\<close> itself is a \<open>Call\<close> while its own promise is \<open>Running\<close>.
\<close>

datatype action = Call fn | Opened | Resume | Start nat | Finish nat

fun step :: "driver \<Rightarrow> action \<Rightarrow> process \<Rightarrow> process option" where
  "step drv (Call f) s =
     (if readOnly (db s) then Some s
      else if opened s then Some (chain_call f s)
      else Some (s\<lparr>holding := holding s @ [f]\<rparr>))"
| "step drv Opened s = (if opened s then None else Some (s\<lparr>opened := True\<rparr>))"
| "step drv Resume s =
     (case holding s of
        [] \<Rightarrow> None
      | f # rest \<Rightarrow> if opened s then Some (chain_call f (s\<lparr>holding := rest\<rparr>)) else None)"
| "step drv (Start i) s =
     (if i < length (chain s) \<and> snd (chain s ! i) = Waiting
      then promise_then (previous s i) (\<lambda>v. nextTransaction drv i s) (\<lambda>e. nextTransaction drv i s)
      else None)"
| "step drv (Finish i) s =
     (if i < length (chain s) \<and> snd (chain s ! i) = Running then Some (finish drv i s) else None)"

fun run :: "driver \<Rightarrow> action list \<Rightarrow> process \<Rightarrow> process option" where
  "run drv [] s = Some s"
| "run drv (a # as) s = (case step drv a s of None \<Rightarrow> None | Some s' \<Rightarrow> run drv as s')"

text \<open>A fresh connection and a fresh process; the functions called so far, in order.\<close>

definition new_conn :: "string \<Rightarrow> bool \<Rightarrow> conn" where
  "new_conn n ro = \<lparr>name = n, readOnly = ro, inTransaction = False, clock = 0, trace = []\<rparr>"

definition new_process :: "string \<Rightarrow> bool \<Rightarrow> bool \<Rightarrow> process" where
  "new_process n ro is_open = \<lparr>db = new_conn n ro, opened = is_open, holding = [], chain = []\<rparr>"

fun invoked_events :: "occurrence list \<Rightarrow> nat list" where
  "invoked_events [] = []"
| "invoked_events (Called i # es) = i # invoked_events es"
| "invoked_events (e # es) = invoked_events es"

definition invoked :: "process \<Rightarrow> nat list" where
  "invoked s = invoked_events (trace (db s))"

fun calls :: "action list \<Rightarrow> nat list" where
  "calls [] = []"
| "calls (Call f # as) = fid f # calls as"
| "calls (a # as) = calls as"

definition chained :: "process \<Rightarrow> nat list" where
  "chained s = map (\<lambda>p. fid (fst p)) (chain s)"

definition running :: "process \<Rightarrow> nat list" where
  "running s = map (\<lambda>p. fid (fst p)) (filter (\<lambda>p. snd p = Running) (chain s))"

text \<open>
  A call overtakes when it is made while \<open>this._sqlite\<close> is set and an earlier call is
  still suspended in \<open>_hold\<close>: line 507 lets it through to the chain at once, ahead of
  the suspended call. \<open>no_overtaking drv acts s\<close>: no call of the schedule \<open>acts\<close>, run
  from \<open>s\<close>, overtakes.
\<close>

definition overtakes :: "action \<Rightarrow> process \<Rightarrow> bool" where
  "overtakes a s = (case a of Call f \<Rightarrow> opened s \<and> holding s \<noteq> [] | _ \<Rightarrow> False)"

fun no_overtaking :: "driver \<Rightarrow> action list \<Rightarrow> process \<Rightarrow> bool" where
  "no_overtaking drv [] s = True"
| "no_overtaking drv (a # as) s =
     (\<not> overtakes a s
      \<and> (case step drv a s of None \<Rightarrow> True | Some s' \<Rightarrow> no_overtaking drv as s'))"

text \<open>The functions of the promises whose \<open>then\<close> callback has run, in chain order.\<close>

definition begun :: "process \<Rightarrow> nat list" where
  "begun s = map (\<lambda>p. fid (fst p)) (filter (\<lambda>p. snd p \<noteq> Waiting) (chain s))"

text \<open>The schedule of \<open>n\<close> calls made one after the other and then left to run.\<close>

definition drain :: "nat \<Rightarrow> action list" where
  "drain n = concat (map (\<lambda>i. [Start i, Finish i]) [0..<n])"

text \<open>
  The shape of a promise chain: settled promises first, then at most one promise that is
  not settled and is not waiting, then waiting promises only.
\<close>

fun is_settled :: "tstate \<Rightarrow> bool" where
  "is_settled (Fulfilled v) = True"
| "is_settled (Rejected e) = True"
| "is_settled Waiting = False"
| "is_settled Running = False"

fun serial :: "tstate list \<Rightarrow> bool" where
  "serial [] = True"
| "serial (p # ps) = (if is_settled p then serial ps else list_all (\<lambda>q. q = Waiting) ps)"

text \<open>
  The state once the first \<open>k\<close> of the calls \<open>fs\<close> have run: their promises are settled
  with what their functions settled with, the others wait.
\<close>

definition processed :: "fn list \<Rightarrow> nat \<Rightarrow> process \<Rightarrow> bool" where
  "processed fs k s =
     (length (chain s) = length fs
      \<and> (\<forall>j<length fs. chain s ! j = (fs ! j, if j < k then settled (body (fs ! j)) else Waiting))
      \<and> invoked s = map fid (take k fs))"

section \<open>The event dispatch engine\<close>

text \<open>
  The engine (EventSourcingDB, with its queue and its metadata model) is not among the
  source files: only its tests are. The definitions of this section that model it are
  written from the specification and say so; the handlers of the tests are translated
  from the test files.
\<close>

text \<open>
  Modelled from the spec: the rows of a document model, which are missing from the
  sources. A row is its \<open>id\<close> and its other columns; a table maps ids to rows; the store
  maps model names to tables.
\<close>

type_synonym row = "string \<times> (string \<times> jsval) list"

type_synonym table = "string \<Rightarrow> row option"

type_synonym store = "string \<Rightarrow> table"

text \<open>
  Modelled from the spec: the reduction result, missing from the sources. Rows to upsert
  (\<open>set\<close>), rows to insert (\<open>ins\<close>), partial updates (\<open>upd\<close>) and ids to delete (\<open>rm\<close>).
\<close>

record reduction =
  r_set :: "row list"
  r_ins :: "row list"
  r_upd :: "row list"
  r_rm :: "string list"

text \<open>
  Modelled from the spec: the causes of failure of an event, missing from the sources: a
  forbidden field modified by a preprocessor, an \<open>error\<close> returned by it, an exception
  of a handler, a failed write, and the dispatch depth exceeded, with its handle string.
  A failure has the key of the error map (\<open>_preprocess_<model>\<close>, \<open>_reduce_<model>\<close>,
  \<open>_apply_<model>\<close>, \<open>_derive_<model>\<close>, \<open>_handle\<close>), the types from the root event
  to the event that failed, and the cause.
\<close>

datatype field = TypeField | VersionField

datatype cause =
  Forbidden field | Returned jsval | Threw error | WriteFailed string | TooDeep string

record failure =
  f_key :: string
  f_path :: "string list"
  f_cause :: cause

text \<open>
  Modelled from the spec: the Event of the engine, missing from the sources. Version,
  type, data, the result (a map from model names to reductions, null until the event is
  applied), the child events and the error map (empty for null). Timestamps are not
  modelled.
\<close>

datatype event =
  Event (e_v: nat) (e_type: string) (e_data: jsval)
    (e_result: "(string \<times> reduction) list option") (e_events: "event list")
    (e_error: "failure list")

text \<open>
  Modelled from the spec: the handler interface, missing from the sources. A handler gets
  the context \<open>{event, model, store, isMainEvent}\<close>; what it passes to \<open>dispatch\<close> is
  returned as a list of requests (type and data), in the order of the calls. A
  preprocessor leaves the event as it is, or changes it (type, or none when it deleted
  the type; version; data), or returns \<open>{error}\<close>. A reducer throws, or returns a
  reduction (none for a falsy value) with the requests under its \<open>events\<close> key. A deriver
  throws, or returns the store with its writes.
\<close>

type_synonym request = "string \<times> jsval"

record ctx =
  c_event :: event
  c_model :: string
  c_store :: store
  c_isMainEvent :: bool

datatype pre_out = Unchanged | Changed "string option" nat jsval | ReturnedError jsval

type_synonym preprocessor = "ctx \<Rightarrow> pre_out \<times> request list"

type_synonym reducer = "ctx \<Rightarrow> error + (reduction option \<times> request list \<times> request list)"

type_synonym deriver = "ctx \<Rightarrow> error + (store \<times> request list)"

record model_def =
  m_name :: string
  m_preprocessor :: "preprocessor option"
  m_reducer :: "reducer option"
  m_deriver :: "deriver option"

text \<open>
  Modelled from the spec: a child event, missing from the sources. It has the type and data
  of the request and inherits the version of its parent; \<open>dispatch\<close> in a handler appends
  it to the children of the current event.
\<close>

definition child :: "event \<Rightarrow> request \<Rightarrow> event" where
  "child ev rq = Event (e_v ev) (fst rq) (snd rq) None [] []"

definition append_children :: "request list \<Rightarrow> event \<Rightarrow> event" where
  "append_children rqs ev =
     Event (e_v ev) (e_type ev) (e_data ev) (e_result ev)
       (e_events ev @ map (child ev) rqs) (e_error ev)"

definition handler_context :: "string \<Rightarrow> bool \<Rightarrow> store \<Rightarrow> event \<Rightarrow> ctx" where
  "handler_context nm isMain st ev = \<lparr>c_event = ev, c_model = nm, c_store = st, c_isMainEvent = isMain\<rparr>"

text \<open>
  Modelled from the spec: the preprocess phase, missing from the sources. Every model with
  a preprocessor, in registry order; a deleted type, a changed version or a returned
  \<open>{error}\<close> aborts the event with the key \<open>_preprocess_<model>\<close>.
\<close>

fun preprocess_phase ::
  "model_def list \<Rightarrow> bool \<Rightarrow> store \<Rightarrow> event \<Rightarrow> (string \<times> cause) + event" where
  "preprocess_phase [] isMain st ev = Inr ev"
| "preprocess_phase (m # ms) isMain st ev =
     (case m_preprocessor m of
        None \<Rightarrow> preprocess_phase ms isMain st ev
      | Some p \<Rightarrow>
          (case p (handler_context (m_name m) isMain st ev) of
             (ReturnedError x, rqs) \<Rightarrow> Inl (''_preprocess_'' @ m_name m, Returned x)
           | (Unchanged, rqs) \<Rightarrow> preprocess_phase ms isMain st (append_children rqs ev)
           | (Changed t v' d, rqs) \<Rightarrow>
               (case t of
                  None \<Rightarrow> Inl (''_preprocess_'' @ m_name m, Forbidden TypeField)
                | Some ty \<Rightarrow>
                    if v' \<noteq> e_v ev then Inl (''_preprocess_'' @ m_name m, Forbidden VersionField)
                    else preprocess_phase ms isMain st
                      (append_children rqs
                         (Event (e_v ev) ty d (e_result ev) (e_events ev) (e_error ev))))))"

text \<open>
  Modelled from the spec: the reduce phase, missing from the sources. Every model with a
  reducer, in registry order; a reduction that is not falsy goes into the result under the
  model's name; the children dispatched, then those under the \<open>events\<close> key, are appended.
\<close>

fun reduce_phase ::
  "model_def list \<Rightarrow> bool \<Rightarrow> store \<Rightarrow> event \<Rightarrow> (string \<times> reduction) list
     \<Rightarrow> (string \<times> cause) + (event \<times> (string \<times> reduction) list)" where
  "reduce_phase [] isMain st ev res = Inr (ev, res)"
| "reduce_phase (m # ms) isMain st ev res =
     (case m_reducer m of
        None \<Rightarrow> reduce_phase ms isMain st ev res
      | Some r \<Rightarrow>
          (case r (handler_context (m_name m) isMain st ev) of
             Inl e \<Rightarrow> Inl (''_reduce_'' @ m_name m, Threw e)
           | Inr (red, evs, rqs) \<Rightarrow>
               reduce_phase ms isMain st (append_children (rqs @ evs) ev)
                 (case red of None \<Rightarrow> res | Some rd \<Rightarrow> res @ [(m_name m, rd)])))"

text \<open>
  Modelled from the spec: the writes of a reduction to a table, missing from the sources,
  in the order \<open>rm\<close>, \<open>ins\<close>, \<open>set\<close>, \<open>upd\<close>. An insert fails on an id that exists; an
  update merges its columns into the row that exists and changes nothing otherwise.
\<close>

fun apply_rm :: "string list \<Rightarrow> table \<Rightarrow> table" where
  "apply_rm [] tb = tb"
| "apply_rm (i # is) tb = apply_rm is (tb(i := None))"

fun apply_ins :: "row list \<Rightarrow> table \<Rightarrow> string + table" where
  "apply_ins [] tb = Inr tb"
| "apply_ins (r # rs) tb =
     (case tb (fst r) of Some old \<Rightarrow> Inl (fst r) | None \<Rightarrow> apply_ins rs (tb(fst r \<mapsto> r)))"

fun apply_set :: "row list \<Rightarrow> table \<Rightarrow> table" where
  "apply_set [] tb = tb"
| "apply_set (r # rs) tb = apply_set rs (tb(fst r \<mapsto> r))"

definition merge_row :: "row \<Rightarrow> row \<Rightarrow> row" where
  "merge_row old new =
     (fst old, filter (\<lambda>kv. fst kv \<notin> fst ` set (snd new)) (snd old) @ snd new)"

fun apply_upd :: "row list \<Rightarrow> table \<Rightarrow> table" where
  "apply_upd [] tb = tb"
| "apply_upd (r # rs) tb =
     (case tb (fst r) of
        None \<Rightarrow> apply_upd rs tb
      | Some old \<Rightarrow> apply_upd rs (tb(fst r \<mapsto> merge_row old r)))"

definition apply_reduction :: "reduction \<Rightarrow> table \<Rightarrow> string + table" where
  "apply_reduction rd tb =
     (case apply_ins (r_ins rd) (apply_rm (r_rm rd) tb) of
        Inl i \<Rightarrow> Inl i
      | Inr tb1 \<Rightarrow> Inr (apply_upd (r_upd rd) (apply_set (r_set rd) tb1)))"

text \<open>
  Modelled from the spec: the state a write transaction works on, missing from the
  sources: the tables of the models and the version \<open>V\<close> of the metadata model. With
  them goes a log, for the statement of the traversal order only: the types of the events
  whose four phases have run, in the order in which they ran.
\<close>

record txn =
  t_store :: store
  t_version :: nat
  t_visited :: "string list"

text \<open>
  Modelled from the spec: the apply phase, missing from the sources. The reductions of the
  result are written, models in result order; for a root event \<open>V\<close> is advanced to the
  version of the event, for a child it is left alone.
\<close>

fun apply_result :: "(string \<times> reduction) list \<Rightarrow> store \<Rightarrow> (string \<times> cause) + store" where
  "apply_result [] st = Inr st"
| "apply_result ((nm, rd) # res) st =
     (case apply_reduction rd (st nm) of
        Inl i \<Rightarrow> Inl (''_apply_'' @ nm, WriteFailed i)
      | Inr tb \<Rightarrow> apply_result res (st(nm := tb)))"

definition apply_phase ::
  "(string \<times> reduction) list \<Rightarrow> bool \<Rightarrow> nat \<Rightarrow> txn \<Rightarrow> (string \<times> cause) + txn" where
  "apply_phase res isMain n t =
     (case apply_result res (t_store t) of
        Inl f \<Rightarrow> Inl f
      | Inr st \<Rightarrow> Inr (t\<lparr>t_store := st, t_version := (if isMain then n else t_version t)\<rparr>))"

text \<open>
  Modelled from the spec: the derive phase, missing from the sources. Every model with a
  deriver, in registry order, on the state after the apply phase; its writes go to the
  store, its dispatches to the children.
\<close>

fun derive_phase ::
  "model_def list \<Rightarrow> bool \<Rightarrow> event \<Rightarrow> txn \<Rightarrow> (string \<times> cause) + (event \<times> txn)" where
  "derive_phase [] isMain ev t = Inr (ev, t)"
| "derive_phase (m # ms) isMain ev t =
     (case m_deriver m of
        None \<Rightarrow> derive_phase ms isMain ev t
      | Some d \<Rightarrow>
          (case d (handler_context (m_name m) isMain (t_store t) ev) of
             Inl e \<Rightarrow> Inl (''_derive_'' @ m_name m, Threw e)
           | Inr (st, rqs) \<Rightarrow>
               derive_phase ms isMain (append_children rqs ev) (t\<lparr>t_store := st\<rparr>)))"

text \<open>
  Modelled from the spec: the handle string of the depth error, missing from the sources:
  the type path of the chain, every type after a dot, then \<open>:deep\<close>, as in
  \<open>.hi.hi.hi:deep\<close>.
\<close>

definition handle_string :: "string list \<Rightarrow> string" where
  "handle_string path = concat (map (\<lambda>t. ''.'' @ t) path) @ '':deep''"

definition fail_at :: "string list \<Rightarrow> string \<times> cause \<Rightarrow> failure" where
  "fail_at path kc = \<lparr>f_key = fst kc, f_path = path, f_cause = snd kc\<rparr>"

text \<open>
  Modelled from the spec: the depth-first traversal of the event tree, missing from the
  sources. \<open>process_node ms budget path isMain ev t\<close> runs the four phases on \<open>ev\<close> and
  then, in dispatch order, each child through all of its phases and children, before the
  next sibling. \<open>budget\<close> is the number of levels left; an event for which none is left
  aborts with the key \<open>_handle\<close>. Any failure aborts the whole tree.
\<close>

fun process_node ::
  "model_def list \<Rightarrow> nat \<Rightarrow> string list \<Rightarrow> bool \<Rightarrow> event \<Rightarrow> txn \<Rightarrow> failure + (event \<times> txn)"
and process_children ::
  "model_def list \<Rightarrow> nat \<Rightarrow> string list \<Rightarrow> event list \<Rightarrow> txn \<Rightarrow> failure + (event list \<times> txn)"
where
  "process_node ms 0 path isMain ev t =
     Inl (fail_at (path @ [e_type ev])
            (''_handle'', TooDeep (handle_string (path @ [e_type ev]))))"
| "process_node ms (Suc n) path isMain ev t =
     (case preprocess_phase ms isMain (t_store t) ev of
        Inl f \<Rightarrow> Inl (fail_at (path @ [e_type ev]) f)
      | Inr ev1 \<Rightarrow>
     (case reduce_phase ms isMain (t_store t) ev1 [] of
        Inl f \<Rightarrow> Inl (fail_at (path @ [e_type ev1]) f)
      | Inr (ev2, res) \<Rightarrow>
     (case apply_phase res isMain (e_v ev2) t of
        Inl f \<Rightarrow> Inl (fail_at (path @ [e_type ev2]) f)
      | Inr t1 \<Rightarrow>
     (case derive_phase ms isMain ev2 t1 of
        Inl f \<Rightarrow> Inl (fail_at (path @ [e_type ev2]) f)
      | Inr (ev3, t2) \<Rightarrow>
     (case process_children ms n (path @ [e_type ev3]) (e_events ev3)
             (t2\<lparr>t_visited := t_visited t2 @ [e_type ev3]\<rparr>) of
        Inl f \<Rightarrow> Inl f
      | Inr (cs, t3) \<Rightarrow>
          Inr (Event (e_v ev3) (e_type ev3) (e_data ev3) (Some res) cs (e_error ev3), t3))))))"
| "process_children ms n path [] t = Inr ([], t)"
| "process_children ms n path (c # cs) t =
     (case process_node ms n path False c t of
        Inl f \<Rightarrow> Inl f
      | Inr (c', t1) \<Rightarrow>
          (case process_children ms n path cs t1 of
             Inl f \<Rightarrow> Inl f
           | Inr (cs', t2) \<Rightarrow> Inr (c' # cs', t2)))"

text \<open>
  Modelled from the spec: the engine's state and the handling of one root event, missing
  from the sources. The queue rows, the tables, \<open>V\<close> and the signals emitted to the
  listeners. A root event is processed with its \<open>events\<close> cleared first and with
  \<open>maxDepth\<close> levels below it. On success the transaction is committed, the row is
  written back and \<open>result\<close> is emitted; on failure the transaction is rolled back, the
  row is written back with its error, \<open>V\<close> is advanced all the same and \<open>error\<close> is
  emitted.
\<close>

record esdb =
  store :: store
  version :: nat
  history :: "event list"
  emitted :: "(string \<times> event) list"

fun queue_set :: "event \<Rightarrow> event list \<Rightarrow> event list" where
  "queue_set ev [] = [ev]"
| "queue_set ev (r # rs) =
     (if e_v r = e_v ev then ev # rs
      else if e_v ev < e_v r then ev # r # rs
      else r # queue_set ev rs)"

definition handle_root :: "model_def list \<Rightarrow> nat \<Rightarrow> event \<Rightarrow> esdb \<Rightarrow> (event + event) \<times> esdb" where
  "handle_root ms maxDepth ev s =
     (let ev0 = Event (e_v ev) (e_type ev) (e_data ev) None [] []
      in case process_node ms (Suc maxDepth) [] True ev0
                \<lparr>t_store = store s, t_version = version s, t_visited = []\<rparr> of
           Inr (ev', t) \<Rightarrow>
             (Inr ev',
              s\<lparr>store := t_store t, version := t_version t,
                history := queue_set ev' (history s),
                emitted := emitted s @ [(''result'', ev')]\<rparr>)
         | Inl f \<Rightarrow>
             (let failed = Event (e_v ev) (e_type ev) (e_data ev) None [] [f]
              in (Inl failed,
                  s\<lparr>version := e_v ev, history := queue_set failed (history s),
                    emitted := emitted s @ [(''error'', failed)]\<rparr>)))"

text \<open>
  Modelled from the spec: the queue's \<open>add\<close> and the engine's \<open>dispatch\<close>, missing from the
  sources. \<open>add\<close> gives the new event the version \<open>max(v) + 1\<close>. \<open>dispatch\<close> enqueues
  and handles the new event; its future is fulfilled with the handled event or rejected
  with the failed one. It is modelled on a queue with no other unhandled event.
\<close>

definition getMaxV :: "event list \<Rightarrow> nat" where
  "getMaxV rows = foldr (\<lambda>r m. max (e_v r) m) rows 0"

definition queue_add :: "string \<Rightarrow> jsval \<Rightarrow> esdb \<Rightarrow> event \<times> esdb" where
  "queue_add ty d s =
     (let ev = Event (Suc (getMaxV (history s))) ty d None [] []
      in (ev, s\<lparr>history := queue_set ev (history s)\<rparr>))"

definition dispatch ::
  "model_def list \<Rightarrow> nat \<Rightarrow> string \<Rightarrow> jsval \<Rightarrow> esdb \<Rightarrow> (event + event) \<times> esdb" where
  "dispatch ms maxDepth ty d s =
     (case queue_add ty d s of (ev, s1) \<Rightarrow> handle_root ms maxDepth ev s1)"


text \<open>The number of levels of an event tree: 1 for an event without children.\<close>

fun depth :: "event \<Rightarrow> nat" where
  "depth (Event n ty d res cs err) = Suc (foldr max (map depth cs) 0)"

text \<open>
  What the regular expression \<open>/(\.hi)+:.*deep/\<close> of the test finds in a string: one or
  more \<open>.hi\<close>, a colon, any characters but a line break, and \<open>deep\<close>.
\<close>

definition matches_deep :: "string \<Rightarrow> bool" where
  "matches_deep s =
     (\<exists>k before mid after. 0 < k \<and> CHR 0x0A \<notin> set mid
        \<and> s = before @ concat (replicate k ''.hi'') @ '':'' @ mid @ ''deep'' @ after)"

definition empty_db :: esdb where
  "empty_db = \<lparr>store = (\<lambda>nm i. None), version = 0, history = [], emitted = []\<rparr>"

text \<open>
  The models of the test \<open>depth first order\<close>: the reducer creates the row \<open>hi\<close> on \<open>hi\<close>
  and dispatches \<open>4\<close> on \<open>3\<close>; the deriver dispatches \<open>1\<close> and \<open>3\<close> on \<open>hi\<close>, \<open>2\<close> on
  \<open>1\<close>, \<open>5\<close> on \<open>3\<close>, then reads the row \<open>hi\<close> and writes it back with the type of the
  event appended to \<open>all\<close> (\<open>t.all\<close> throws when the row is missing).
\<close>

definition get_field :: "row \<Rightarrow> string \<Rightarrow> jsval" where
  "get_field r k = (case map_of (snd r) k of None \<Rightarrow> JUndefined | Some x \<Rightarrow> x)"

definition depth_first_reducer :: reducer where
  "depth_first_reducer c =
     (if e_type (c_event c) = ''hi''
      then Inr (Some \<lparr>r_set = [(''hi'', [(''all'', JStr [])])], r_ins = [], r_upd = [],
                       r_rm = []\<rparr>, [], [])
      else if e_type (c_event c) = ''3'' then Inr (None, [], [(''4'', JUndefined)])
      else Inr (None, [], []))"

definition depth_first_deriver :: deriver where
  "depth_first_deriver c =
     (let ty = e_type (c_event c);
          rqs = (if ty = ''hi'' then [(''1'', JUndefined), (''3'', JUndefined)] else [])
                @ (if ty = ''1'' then [(''2'', JUndefined)] else [])
                @ (if ty = ''3'' then [(''5'', JUndefined)] else [])
      in case c_store c (c_model c) ''hi'' of
           None \<Rightarrow> Inl (TypeError ''Cannot read properties of undefined'')
         | Some t \<Rightarrow>
             Inr ((c_store c)(c_model c := (c_store c (c_model c))
                     (''hi'' \<mapsto> (''hi'', [(''all'', JStr (js_String (get_field t ''all'') @ ty))]))),
                  rqs))"

definition depth_first_models :: "model_def list" where
  "depth_first_models =
     [\<lparr>m_name = ''foo'', m_preprocessor = None, m_reducer = Some depth_first_reducer,
       m_deriver = Some depth_first_deriver\<rparr>]"

text \<open>The model of the test \<open>no infinite recursion\<close>: the deriver dispatches \<open>hi\<close> on \<open>hi\<close>.\<close>

definition recursive_deriver :: deriver where
  "recursive_deriver c =
     Inr (c_store c, if e_type (c_event c) = ''hi'' then [(''hi'', JUndefined)] else [])"

definition recursive_models :: "model_def list" where
  "recursive_models =
     [\<lparr>m_name = ''foo'', m_preprocessor = None, m_reducer = None,
       m_deriver = Some recursive_deriver\<rparr>]"

text \<open>
  The model of the test \<open>work\<close>: on \<open>hi\<close> and on its own phase's type, the preprocessor
  dispatches \<open>pre-<type>\<close>, the reducer dispatches \<open>red-<type>\<close> and returns
  \<open>red-out-<type>\<close> under \<open>events\<close>, the deriver dispatches \<open>der-<type>\<close>; the reducer
  always sets the row whose id is the type of the event.
\<close>

definition work_preprocessor :: preprocessor where
  "work_preprocessor c =
     (let ty = e_type (c_event c)
      in (Unchanged, if ty = ''hi'' \<or> ty = ''pre'' then [(''pre-'' @ ty, JUndefined)] else []))"

definition work_reducer :: reducer where
  "work_reducer c =
     (let ty = e_type (c_event c)
      in Inr (Some \<lparr>r_set = [(ty, [])], r_ins = [], r_upd = [], r_rm = []\<rparr>,
              if ty = ''hi'' \<or> ty = ''red'' then [(''red-out-'' @ ty, JUndefined)] else [],
              if ty = ''hi'' \<or> ty = ''red'' then [(''red-'' @ ty, JUndefined)] else []))"

definition work_deriver :: deriver where
  "work_deriver c =
     (let ty = e_type (c_event c)
      in Inr (c_store c, if ty = ''hi'' \<or> ty = ''der'' then [(''der-'' @ ty, JUndefined)] else []))"

definition work_models :: "model_def list" where
  "work_models =
     [\<lparr>m_name = ''foo'', m_preprocessor = Some work_preprocessor,
       m_reducer = Some work_reducer, m_deriver = Some work_deriver\<rparr>]"

text \<open>
  Handlers that dispatch the type they handle, without bound: on every event of type
  \<open>ty\<close>, root or child, whatever its version and data and whatever the state, the four
  phases succeed and leave an event of type \<open>ty\<close> whose first child is a new event
  of type \<open>ty\<close>.
\<close>

definition self_dispatching :: "model_def list \<Rightarrow> string \<Rightarrow> bool" where
  "self_dispatching ms ty =
     (\<forall>isMain v d t. \<exists>ev1 ev2 res t1 ev3 t2 v' d' rest.
        preprocess_phase ms isMain (t_store t) (Event v ty d None [] []) = Inr ev1
        \<and> reduce_phase ms isMain (t_store t) ev1 [] = Inr (ev2, res)
        \<and> apply_phase res isMain (e_v ev2) t = Inr t1
        \<and> derive_phase ms isMain ev2 t1 = Inr (ev3, t2)
        \<and> e_type ev3 = ty
        \<and> e_events ev3 = Event v' ty d' None [] [] # rest)"


section \<open>Properties of the SQL templating\<close>

text \<open>
  The word characters of the regular expression are the characters of \<open>word_chars\<close>, so the
  test of the source for a modifier, \<open>/^(ID|JSON|LIT)\b/\<close>, is the documented one.
\<close>

lemma word_chars_are: "\<forall>c\<in>set word_chars. is_word_char c"
  by code_simp

lemma ranges_in_word_chars:
  "\<forall>n\<in>{65..<91} \<union> {97..<123} \<union> {48..<58} \<union> {95::nat}. (char_of n :: char) \<in> set word_chars"
  by code_simp

lemma is_word_char_iff: "is_word_char c \<longleftrightarrow> c \<in> set word_chars"
proof
  assume "is_word_char c"
  then have "(of_char c :: nat) \<in> {65..<91} \<union> {97..<123} \<union> {48..<58} \<union> {95}"
    by (auto simp: is_word_char_def Let_def)
  with ranges_in_word_chars have "(char_of (of_char c :: nat) :: char) \<in> set word_chars"
    by blast
  then show "c \<in> set word_chars" by simp
next
  assume "c \<in> set word_chars"
  with word_chars_are show "is_word_char c" by blast
qed

lemma has_modifier_boundary:
  "has_modifier m piece \<longleftrightarrow> take (length m) piece = m \<and> boundary (drop (length m) piece)"
  by (auto simp: has_modifier_def boundary_def is_word_char_iff prefix_def
      split: list.splits) (metis append_eq_conv_conj append_take_drop_id)+


lemma quotes_paired_other: "c \<noteq> dq \<Longrightarrow> quotes_paired (c # cs) = quotes_paired cs"
  by (induction cs arbitrary: c) auto

lemma quotes_paired_replace: "quotes_paired (replace_all dq [dq, dq] s)"
proof (induction s)
  case Nil
  then show ?case by (simp add: replace_all_def)
next
  case (Cons c s)
  show ?case
  proof (cases "c = dq")
    case True
    with Cons show ?thesis by (simp add: replace_all_def)
  next
    case False
    have "replace_all dq [dq, dq] (c # s) = c # replace_all dq [dq, dq] s"
      using False by (simp add: replace_all_def)
    with Cons False show ?thesis by (simp add: quotes_paired_other)
  qed
qed

lemma find_mod_spec:
  "find_mod piece =
     (if has_modifier ''ID'' piece then Some ''ID''
      else if has_modifier ''JSON'' piece then Some ''JSON''
      else if has_modifier ''LIT'' piece then Some ''LIT''
      else None)"
  by (simp add: find_mod_def has_modifier_boundary eval_nat_numeral)

lemma modifiers_exclusive:
  "has_modifier ''ID'' piece \<Longrightarrow> \<not> has_modifier ''LIT'' piece \<and> \<not> has_modifier ''JSON'' piece"
  "has_modifier ''LIT'' piece \<Longrightarrow> \<not> has_modifier ''JSON'' piece"
  by (auto simp: has_modifier_def prefix_def)

lemma quoteSqlId_spec:
  "quoteSqlId v =
     (case v of
        JUndefined \<Rightarrow> Inl (TypeError ''Cannot read properties of undefined'')
      | JNull \<Rightarrow> Inl (TypeError ''Cannot read properties of null'')
      | _ \<Rightarrow> Inr ([dq] @ replace_all dq [dq, dq] (js_String v) @ [dq]))"
  by (cases v) (simp_all add: quoteSqlId_def)

lemma sql_loop_step:
  "sql_loop stringify (p # ps) vals out vars =
     (case interpolation stringify p (case vals of [] \<Rightarrow> JUndefined | v # _ \<Rightarrow> v) of
        Inl e \<Rightarrow> Inl e
      | Inr (s, vs) \<Rightarrow> sql_loop stringify ps (tl vals) (out @ s) (vars @ vs))"
proof -
  let ?v = "case vals of [] \<Rightarrow> JUndefined | v # _ \<Rightarrow> v"
  consider (ID) "has_modifier ''ID'' p" | (LIT) "\<not> has_modifier ''ID'' p" "has_modifier ''LIT'' p"
    | (JSON) "\<not> has_modifier ''ID'' p" "\<not> has_modifier ''LIT'' p" "has_modifier ''JSON'' p"
    | (plain) "\<not> has_modifier ''ID'' p" "\<not> has_modifier ''LIT'' p" "\<not> has_modifier ''JSON'' p"
    by blast
  then show ?thesis
  proof cases
    case ID
    then show ?thesis
      by (cases ?v) (simp_all add: find_mod_spec interpolation_def quoteSqlId_spec Let_def eval_nat_numeral)
  next
    case LIT
    with modifiers_exclusive(2) [of p] show ?thesis
      by (simp add: find_mod_spec interpolation_def Let_def eval_nat_numeral)
  next
    case JSON
    then show ?thesis
      by (simp add: find_mod_spec interpolation_def Let_def eval_nat_numeral)
  next
    case plain
    then show ?thesis
      by (simp add: find_mod_spec interpolation_def Let_def eval_nat_numeral)
  qed
qed

lemma args_for_Suc:
  "args_for (Suc n) vals = (case vals of [] \<Rightarrow> JUndefined | v # _ \<Rightarrow> v) # args_for n (tl vals)"
  by (cases vals) simp_all

lemma sql_loop_spec:
  "sql_loop stringify ps vals out vars =
     (case collect (map2 (interpolation stringify) ps (args_for (length ps) vals)) of
        Inl e \<Rightarrow> Inl e
      | Inr (s, vs) \<Rightarrow> Inr (out @ s, vars @ vs))"
proof (induction ps arbitrary: vals out vars)
  case Nil
  show ?case by simp
next
  case (Cons p ps)
  let ?v = "case vals of [] \<Rightarrow> JUndefined | v # _ \<Rightarrow> v"
  show ?case
  proof (cases "interpolation stringify p ?v")
    case (Inl e)
    then show ?thesis
      by (simp add: sql_loop_step args_for_Suc del: sql_loop.simps args_for.simps)
  next
    case (Inr r)
    obtain s vs where "r = (s, vs)" by (cases r)
    with Inr show ?thesis
      by (simp add: sql_loop_step args_for_Suc Cons.IH del: sql_loop.simps args_for.simps
          split: sum.splits)
  qed
qed

text \<open>
  Claim C9, as the code has it. On every template and every list of interpolations,
  \<open>sql\<close> gives what the documented behaviour \<open>sql_spec\<close> gives: plain values are replaced by
  \<open>?\<close> and bound, \<open>JSON\<close> values are replaced by \<open>?\<close> and their serialisation is bound,
  an \<open>ID\<close> value is put in double quotes with every double quote of it doubled (and
  throws when it is \<open>undefined\<close> or \<open>null\<close>), a \<open>LIT\<close> value is inserted as it is, with no
  escaping at all. The quotes of a quoted identifier come in pairs, and the word
  characters that end a modifier are the letters, the digits and the underscore.
\<close>

theorem sql_interpolation:
  "sql stringify strings vals = sql_spec stringify strings vals
   \<and> quotes_paired (replace_all dq [dq, dq] x)
   \<and> (is_word_char c \<longleftrightarrow> c \<in> set word_chars)"
proof -
  have "sql stringify strings vals = sql_spec stringify strings vals"
    by (cases strings) (simp_all add: sql_spec_def sql_loop_spec split: sum.splits)
  then show ?thesis
    using quotes_paired_replace [of x] is_word_char_iff [of c] by blast
qed

text \<open>
  The example of the documentation of \<open>sql\<close>,
  \<open>select * from ${'foo'}ID where ${'t'}LIT = ${bar} AND json = ${obj}JSON\<close> with \<open>bar = 5\<close>
  and \<open>obj = 'x'\<close>, and an identifier that is \<open>null\<close>.
\<close>

theorem sql_interpolation_witness:
  "sql JSON_stringify [''select * from '', ''ID where '', ''LIT = '', '' AND json = '', ''JSON'']
       [JStr ''foo'', JStr ''t'', JNum 5, JStr ''x'']
     = Inr (JStr (''select * from '' @ [dq] @ ''foo'' @ [dq] @ '' where t = ? AND json = ?''),
            [JNum 5, JStr ([dq] @ ''x'' @ [dq])])
   \<and> sql JSON_stringify [''drop table '', ''ID''] [JNull]
     = Inl (TypeError ''Cannot read properties of null'')
   \<and> quotes_paired (replace_all dq [dq, dq] (''a'' @ [dq] @ ''b''))
   \<and> is_word_char (CHR ''_'')"
proof -
  have e: "sql_spec JSON_stringify
             [''select * from '', ''ID where '', ''LIT = '', '' AND json = '', ''JSON'']
             [JStr ''foo'', JStr ''t'', JNum 5, JStr ''x'']
           = Inr (JStr (''select * from '' @ [dq] @ ''foo'' @ [dq] @ '' where t = ? AND json = ?''),
                  [JNum 5, JStr ([dq] @ ''x'' @ [dq])])"
    by code_simp
  have n: "sql_spec JSON_stringify [''drop table '', ''ID''] [JNull]
           = Inl (TypeError ''Cannot read properties of null'')"
    by code_simp
  have w: "CHR ''_'' \<in> set word_chars"
    by code_simp
  show ?thesis
    using sql_interpolation [of JSON_stringify
        "[''select * from '', ''ID where '', ''LIT = '', '' AND json = '', ''JSON'']"
        "[JStr ''foo'', JStr ''t'', JNum 5, JStr ''x'']" "''a'' @ [dq] @ ''b''" "CHR ''_''"]
      sql_interpolation [of JSON_stringify "[''drop table '', ''ID'']" "[JNull]" "[]" "CHR ''_''"]
      e n w
    by (simp only: simp_thms)
qed

text \<open>
  Claim C9 as stated says that literals are escaped. They are not: a \<open>LIT\<close> value with a
  single quote reaches the SQL text unchanged, where \<open>valToSql\<close> would have doubled the
  quote, and a value with a lone double quote is not well escaped either.
\<close>

theorem sql_LIT_verbatim:
  "sql JSON_stringify [''x='', ''LIT''] [JStr (''a'' @ [sq] @ ''b'')]
     = Inr (JStr (''x=a'' @ [sq] @ ''b''), [])
   \<and> ''a'' @ [sq] @ ''b'' \<noteq> valToSql (JStr (''a'' @ [sq] @ ''b''))
   \<and> \<not> quotes_paired (''a'' @ [dq] @ ''b'')"
  by (simp add: find_mod_def boundary_def replace_all_def sq_def dq_def)

section \<open>Properties of the busy retry\<close>

lemma retried_0: "retried q 0 c = c"
  by (simp add: retried_def)

lemma retried_Suc:
  "retried q (Suc k) c
     = retried q k (busyWait (c\<lparr>clock := Suc (clock c), trace := trace c @ [Query q]\<rparr>))"
  by (simp add: retried_def busyWait_def)

lemma call_retry_busy:
  "(\<forall>j<k. busy_at drv (clock c + j)) \<Longrightarrow> k \<le> r
     \<Longrightarrow> call_retry drv q r c = call_retry drv q (r - k) (retried q k c)"
proof (induction k arbitrary: r c)
  case 0
  then show ?case by (simp add: retried_0)
next
  case (Suc k)
  from Suc.prems have b: "busy_at drv (clock c)" by force
  then obtain e where e: "drv (clock c) = Inl e" "isBusyError e"
    by (auto simp: busy_at_def split: sum.splits)
  let ?c = "busyWait (c\<lparr>clock := Suc (clock c), trace := trace c @ [Query q]\<rparr>)"
  have ck: "clock ?c = Suc (clock c)" by (simp add: busyWait_def)
  have "\<forall>j<k. busy_at drv (clock ?c + j)"
  proof (intro allI impI)
    fix j assume "j < k"
    then have "Suc j < Suc k" by simp
    with Suc.prems(1) have "busy_at drv (clock c + Suc j)" by blast
    then show "busy_at drv (clock ?c + j)" by (simp add: ck)
  qed
  moreover have "k \<le> r - 1" using Suc.prems(2) by simp
  ultimately have "call_retry drv q (r - 1) ?c = call_retry drv q (r - 1 - k) (retried q k ?c)"
    by (rule Suc.IH)
  moreover have "call_retry drv q r c = call_retry drv q (r - 1) ?c"
    using e Suc.prems(2) by (subst call_retry.simps) (simp add: Let_def)
  ultimately show ?case by (simp add: retried_Suc)
qed

lemma call_retry_recovers:
  assumes "\<forall>j<k. busy_at drv (clock c + j)" "drv (clock c + k) = Inr out" "k \<le> r"
  shows "call_retry drv q r c
           = (Inr out, (retried q k c)\<lparr>clock := Suc (clock c + k),
                 trace := trace (retried q k c) @ [Query q]\<rparr>)"
proof -
  have "call_retry drv q r c = call_retry drv q (r - k) (retried q k c)"
    using assms(1,3) by (rule call_retry_busy)
  also have "\<dots> = (Inr out, (retried q k c)\<lparr>clock := Suc (clock c + k),
                 trace := trace (retried q k c) @ [Query q]\<rparr>)"
    using assms(2) by (subst call_retry.simps) (simp add: Let_def retried_def)
  finally show ?thesis .
qed

lemma call_retry_exhausted:
  assumes "\<forall>j\<le>r. busy_at drv (clock c + j)"
  shows "\<exists>e. isBusyError e \<and> call_retry drv q r c
           = (Inl e, (retried q r c)\<lparr>clock := Suc (clock c + r),
                 trace := trace (retried q r c) @ [Query q]\<rparr>)"
proof -
  have "call_retry drv q r c = call_retry drv q (r - r) (retried q r c)"
    using assms by (intro call_retry_busy) auto
  moreover from assms have "busy_at drv (clock c + r)" by simp
  then obtain e where e: "drv (clock c + r) = Inl e" "isBusyError e"
    by (auto simp: busy_at_def split: sum.splits)
  have "call_retry drv q 0 (retried q r c)
          = (Inl (Error (code e) (name c @ '': sqlite3: '' @ message e)),
             (retried q r c)\<lparr>clock := Suc (clock c + r),
                 trace := trace (retried q r c) @ [Query q]\<rparr>)"
    using e by (subst call_retry.simps) (simp add: Let_def retried_def)
  moreover have "isBusyError (Error (code e) (name c @ '': sqlite3: '' @ message e))"
    using e(2) by (simp add: isBusyError_def)
  ultimately show ?thesis by auto
qed


lemma invoked_events_append:
  "invoked_events (xs @ ys) = invoked_events xs @ invoked_events ys"
  by (induction xs rule: invoked_events.induct) simp_all

lemma invoked_events_retries: "invoked_events (concat (replicate k [Query q, BusyWait])) = []"
  by (induction k) simp_all

lemma waits_retries: "length (filter (\<lambda>e. e = BusyWait) (concat (replicate k [Query q, BusyWait]))) = k"
  by (induction k) simp_all

lemma queries_retries:
  "length (filter (\<lambda>e. e = Query q) (concat (replicate k [Query q, BusyWait]))) = k"
  by (induction k) simp_all

text \<open>What a statement that gets through after \<open>k\<close> busy answers leaves behind.\<close>

lemma exec_recovers:
  assumes "\<forall>j<k. busy_at drv (clock c + j)" "drv (clock c + k) = Inr out" "k \<le> RETRY_COUNT"
  shows "\<exists>c'. exec drv q c = (Inr (), c') \<and> clock c' = Suc (clock c + k)
           \<and> waits c' = waits c + k \<and> queries q c' = Suc (queries q c + k)
           \<and> invoked_events (trace c') = invoked_events (trace c)
           \<and> inTransaction c' = inTransaction c"
  using call_retry_recovers [OF assms, of q]
  by (simp add: exec_def sqlite_call_def retried_def waits_def queries_def
      invoked_events_append invoked_events_retries waits_retries queries_retries)

lemma exec_exhausted:
  assumes "\<forall>j\<le>RETRY_COUNT. busy_at drv (clock c + j)"
  shows "\<exists>e c'. exec drv q c = (Inl e, c') \<and> isBusyError e
           \<and> clock c' = Suc (clock c + RETRY_COUNT)
           \<and> waits c' = waits c + RETRY_COUNT \<and> queries q c' = Suc (queries q c + RETRY_COUNT)
           \<and> invoked_events (trace c') = invoked_events (trace c)
           \<and> inTransaction c' = inTransaction c"
proof -
  from call_retry_exhausted [OF assms, of q] obtain e where
    "isBusyError e" "call_retry drv q RETRY_COUNT c
       = (Inl e, (retried q RETRY_COUNT c)\<lparr>clock := Suc (clock c + RETRY_COUNT),
            trace := trace (retried q RETRY_COUNT c) @ [Query q]\<rparr>)"
    by blast
  then show ?thesis
    by (simp add: exec_def sqlite_call_def retried_def waits_def queries_def
      invoked_events_append invoked_events_retries waits_retries queries_retries)
qed


lemma busyWait_fields [simp]:
  "clock (busyWait c) = clock c" "inTransaction (busyWait c) = inTransaction c"
  "waits (busyWait c) = Suc (waits c)" "queries q (busyWait c) = queries q c"
  "invoked_events (trace (busyWait c)) = invoked_events (trace c)"
  by (simp_all add: busyWait_def waits_def queries_def invoked_events_append)

lemma emit_fields [simp]:
  "clock (emit ev c) = clock c" "inTransaction (emit ev c) = inTransaction c"
  "waits (emit ev c) = waits c" "queries q (emit ev c) = queries q c"
  "invoked_events (trace (emit ev c)) = invoked_events (trace c)"
  by (simp_all add: emit_def waits_def queries_def invoked_events_append)

lemma called_fields [simp]:
  "clock (called f c) = clock c" "inTransaction (called f c) = inTransaction c"
  "waits (called f c) = waits c" "queries q (called f c) = queries q c"
  "invoked_events (trace (called f c)) = invoked_events (trace c) @ [fid f]"
  by (simp_all add: called_def waits_def queries_def invoked_events_append)

lemma inTransaction_fields [simp]:
  "waits (c\<lparr>inTransaction := b\<rparr>) = waits c" "queries q (c\<lparr>inTransaction := b\<rparr>) = queries q c"
  by (simp_all add: waits_def queries_def)

text \<open>
  The transaction begins when fewer than \<open>(busyRetry + 1) * (RETRY_COUNT + 1)\<close> busy
  answers come first: every \<open>BEGIN IMMEDIATE\<close> uses up to \<open>RETRY_COUNT + 1\<close> of them.
\<close>

lemma begin_tx_recovers:
  "(\<forall>j<m. busy_at drv (clock c + j)) \<Longrightarrow> drv (clock c + m) = Inr out
     \<Longrightarrow> m < (r + 1) * (RETRY_COUNT + 1)
     \<Longrightarrow> \<exists>c'. begin_tx drv r c = (None, c') \<and> clock c' = Suc (clock c + m)
           \<and> waits c' = waits c + m
           \<and> invoked_events (trace c') = invoked_events (trace c) \<and> inTransaction c'"
proof (induction r arbitrary: c m)
  case 0
  let ?c = "c\<lparr>inTransaction := True\<rparr>"
  from 0 have "\<forall>j<m. busy_at drv (clock ?c + j)" "drv (clock ?c + m) = Inr out" "m \<le> RETRY_COUNT"
    by simp_all
  from exec_recovers [OF this, of "''BEGIN IMMEDIATE''"] show ?case
    by (subst begin_tx.simps) auto
next
  case (Suc r)
  let ?c = "c\<lparr>inTransaction := True\<rparr>"
  show ?case
  proof (cases "m \<le> RETRY_COUNT")
    case True
    with Suc.prems have "\<forall>j<m. busy_at drv (clock ?c + j)" "drv (clock ?c + m) = Inr out"
      "m \<le> RETRY_COUNT"
      by simp_all
    from exec_recovers [OF this, of "''BEGIN IMMEDIATE''"] show ?thesis
      by (subst begin_tx.simps) auto
  next
    case False
    then have m: "Suc RETRY_COUNT \<le> m" by simp
    with Suc.prems(1) have "\<forall>j\<le>RETRY_COUNT. busy_at drv (clock ?c + j)" by simp
    from exec_exhausted [OF this, of "''BEGIN IMMEDIATE''"] obtain e c1 where
      x: "exec drv ''BEGIN IMMEDIATE'' ?c = (Inl e, c1)" "isBusyError e"
         "clock c1 = Suc (clock c + RETRY_COUNT)" "waits c1 = waits c + RETRY_COUNT"
         "invoked_events (trace c1) = invoked_events (trace c)"
      by auto
    have step: "begin_tx drv (Suc r) c = begin_tx drv r (busyWait c1)"
      using x(1,2) by (subst begin_tx.simps) simp
    let ?m = "m - Suc RETRY_COUNT"
    have a: "\<forall>j<?m. busy_at drv (clock (busyWait c1) + j)"
    proof (intro allI impI)
      fix j assume "j < ?m"
      then have "Suc RETRY_COUNT + j < m" by simp
      with Suc.prems(1) have "busy_at drv (clock c + (Suc RETRY_COUNT + j))" by blast
      then show "busy_at drv (clock (busyWait c1) + j)" by (simp add: x(3) add.assoc)
    qed
    have b: "drv (clock (busyWait c1) + ?m) = Inr out"
      using Suc.prems(2) m by (simp add: x(3))
    have c: "?m < (r + 1) * (RETRY_COUNT + 1)"
      using Suc.prems(3) m by simp
    from Suc.IH [OF a b c] show ?thesis
      using m by (auto simp: step x)
  qed
qed

lemma begin_tx_exhausted:
  "(\<forall>j<(r + 1) * (RETRY_COUNT + 1). busy_at drv (clock c + j))
     \<Longrightarrow> \<exists>e c'. begin_tx drv r c = (Some e, c') \<and> isBusyError e
           \<and> clock c' = clock c + (r + 1) * (RETRY_COUNT + 1)
           \<and> waits c' = waits c + (r + 1) * (RETRY_COUNT + 1) - 1
           \<and> queries ''BEGIN IMMEDIATE'' c'
               = queries ''BEGIN IMMEDIATE'' c + (r + 1) * (RETRY_COUNT + 1)
           \<and> invoked_events (trace c') = invoked_events (trace c) \<and> \<not> inTransaction c'"
proof (induction r arbitrary: c)
  case 0
  let ?c = "c\<lparr>inTransaction := True\<rparr>"
  from 0 have "\<forall>j\<le>RETRY_COUNT. busy_at drv (clock ?c + j)" by simp
  from exec_exhausted [OF this, of "''BEGIN IMMEDIATE''"] show ?case
    by (subst begin_tx.simps) auto
next
  case (Suc r)
  let ?c = "c\<lparr>inTransaction := True\<rparr>"
  from Suc.prems have "\<forall>j\<le>RETRY_COUNT. busy_at drv (clock ?c + j)" by simp
  from exec_exhausted [OF this, of "''BEGIN IMMEDIATE''"] obtain e c1 where
    x: "exec drv ''BEGIN IMMEDIATE'' ?c = (Inl e, c1)" "isBusyError e"
       "clock c1 = Suc (clock c + RETRY_COUNT)" "waits c1 = waits c + RETRY_COUNT"
       "queries ''BEGIN IMMEDIATE'' c1 = Suc (queries ''BEGIN IMMEDIATE'' c + RETRY_COUNT)"
       "invoked_events (trace c1) = invoked_events (trace c)"
    by auto
  have step: "begin_tx drv (Suc r) c = begin_tx drv r (busyWait c1)"
    using x(1,2) by (subst begin_tx.simps) simp
  have "\<forall>j<(r + 1) * (RETRY_COUNT + 1). busy_at drv (clock (busyWait c1) + j)"
  proof (intro allI impI)
    fix j assume "j < (r + 1) * (RETRY_COUNT + 1)"
    then have "Suc RETRY_COUNT + j < (Suc r + 1) * (RETRY_COUNT + 1)" by simp
    with Suc.prems have "busy_at drv (clock c + (Suc RETRY_COUNT + j))" by blast
    then show "busy_at drv (clock (busyWait c1) + j)" by (simp add: x(3) add.assoc)
  qed
  from Suc.IH [OF this] show ?case
    by (auto simp: step x)
qed

lemma do_withTransaction_split:
  "do_withTransaction drv f r c =
     (case begin_tx drv r c of
        (Some e, c') \<Rightarrow> (Inl e, c')
      | (None, c') \<Rightarrow> settle_tx drv f (called f c'))"
proof (induction r arbitrary: c)
  case 0
  show ?case
    by (subst do_withTransaction.simps, subst begin_tx.simps)
      (simp split: prod.splits sum.splits)
next
  case (Suc r)
  show ?case
    by (subst do_withTransaction.simps, subst begin_tx.simps)
      (simp add: Suc.IH split: prod.splits sum.splits)
qed

lemma settle_tx_ok:
  assumes "drv (clock c) = Inr out"
  shows "\<exists>c'. settle_tx drv f c = (body f, c') \<and> clock c' = Suc (clock c)
           \<and> waits c' = waits c \<and> invoked_events (trace c') = invoked_events (trace c)
           \<and> \<not> inTransaction c'"
proof -
  have a: "\<forall>j<0. busy_at drv (clock c + j)" by simp
  have b: "drv (clock c + 0) = Inr out" using assms by simp
  have c: "0 \<le> RETRY_COUNT" by simp
  from exec_recovers [OF a b c, of "''ROLLBACK''"] exec_recovers [OF a b c, of "''END''"]
  show ?thesis
    by (cases "body f") (auto simp: settle_tx_def)
qed


lemma sqlite_call_recovers:
  assumes "\<forall>j<k. busy_at drv (clock c + j)" "drv (clock c + k) = Inr out" "k \<le> RETRY_COUNT"
  shows "fst (sqlite_call drv q c) = Inr out \<and> waits (snd (sqlite_call drv q c)) = waits c + k"
  using call_retry_recovers [OF assms, of q]
  by (simp add: sqlite_call_def retried_def waits_def waits_retries)

lemma sqlite_call_exhausted:
  assumes "\<forall>j\<le>RETRY_COUNT. busy_at drv (clock c + j)"
  shows "(\<exists>e. fst (sqlite_call drv q c) = Inl e \<and> isBusyError e)
           \<and> waits (snd (sqlite_call drv q c)) = waits c + RETRY_COUNT"
proof -
  from call_retry_exhausted [OF assms, of q] obtain e where
    "isBusyError e" "call_retry drv q RETRY_COUNT c
       = (Inl e, (retried q RETRY_COUNT c)\<lparr>clock := Suc (clock c + RETRY_COUNT),
            trace := trace (retried q RETRY_COUNT c) @ [Query q]\<rparr>)"
    by blast
  then show ?thesis
    by (simp add: sqlite_call_def retried_def waits_def waits_retries)
qed

lemma do_withTransaction_recovers:
  assumes "\<forall>j<m. busy_at drv (clock c + j)" "drv (clock c + m) = Inr out"
    "drv (Suc (clock c + m)) = Inr out'" "m < (r + 1) * (RETRY_COUNT + 1)"
  shows "fst (do_withTransaction drv f r c) = body f
           \<and> invoked_events (trace (snd (do_withTransaction drv f r c)))
               = invoked_events (trace c) @ [fid f]
           \<and> waits (snd (do_withTransaction drv f r c)) = waits c + m"
proof -
  from begin_tx_recovers [OF assms(1,2,4)] obtain c1 where
    b: "begin_tx drv r c = (None, c1)" "clock c1 = Suc (clock c + m)" "waits c1 = waits c + m"
       "invoked_events (trace c1) = invoked_events (trace c)"
    by blast
  have "drv (clock (called f c1)) = Inr out'" using assms(3) b(2) by simp
  from settle_tx_ok [of drv "called f c1" out' f, OF this] obtain c2 where
    s: "settle_tx drv f (called f c1) = (body f, c2)" "waits c2 = waits (called f c1)"
       "invoked_events (trace c2) = invoked_events (trace (called f c1))"
    by blast
  show ?thesis
    by (simp add: do_withTransaction_split b s)
qed

lemma do_withTransaction_exhausted:
  assumes "\<forall>j<(r + 1) * (RETRY_COUNT + 1). busy_at drv (clock c + j)"
  shows "(\<exists>e. fst (do_withTransaction drv f r c) = Inl e \<and> isBusyError e)
           \<and> invoked_events (trace (snd (do_withTransaction drv f r c))) = invoked_events (trace c)
           \<and> \<not> inTransaction (snd (do_withTransaction drv f r c))
           \<and> queries ''BEGIN IMMEDIATE'' (snd (do_withTransaction drv f r c))
               = queries ''BEGIN IMMEDIATE'' c + (r + 1) * (RETRY_COUNT + 1)
           \<and> waits (snd (do_withTransaction drv f r c)) = waits c + (r + 1) * (RETRY_COUNT + 1) - 1"
proof -
  from begin_tx_exhausted [OF assms] obtain e c1 where
    "begin_tx drv r c = (Some e, c1)" "isBusyError e"
    "waits c1 = waits c + (r + 1) * (RETRY_COUNT + 1) - 1"
    "queries ''BEGIN IMMEDIATE'' c1 = queries ''BEGIN IMMEDIATE'' c + (r + 1) * (RETRY_COUNT + 1)"
    "invoked_events (trace c1) = invoked_events (trace c)" "\<not> inTransaction c1"
    by blast
  then show ?thesis
    by (simp add: do_withTransaction_split)
qed

lemma busyWait_ms_bounds:
  assumes "0 \<le> x" "x < 1"
  shows "200 \<le> busyWait_ms x \<and> busyWait_ms x \<le> 1199"
proof -
  from assms have "0 \<le> x * 1000" "x * 1000 < 1000" by simp_all
  then have "0 \<le> \<lfloor>x * 1000\<rfloor>" "\<lfloor>x * 1000\<rfloor> < 1000"
    by (simp_all add: floor_less_iff)
  then show ?thesis by (simp add: busyWait_ms_def)
qed

text \<open>
  Claim C8, as the code has it. \<open>RETRY_COUNT\<close> is 10; it is the budget of \<open>_call\<close> for
  every statement and the default \<open>busyRetry\<close> of \<open>__withTransaction\<close>, and the two
  budgets nest. A statement that the driver answers busy \<open>k \<le> 10\<close> times and then accepts
  resolves with the output after \<open>k\<close> busy waits (no error is reported); one answered
  busy 11 times rejects with the busy error after 10 busy waits. \<open>BEGIN IMMEDIATE\<close> is
  such a statement, and \<open>__withTransaction\<close> with \<open>busyRetry = r\<close> issues it again up to
  \<open>r\<close> times, after a busy wait each time: the transaction begins and returns what \<open>fn\<close>
  settles with, \<open>fn\<close> called once, when fewer than \<open>(r + 1) * 11\<close> busy answers come
  first, one busy wait for each of them; after \<open>(r + 1) * 11\<close> busy answers the busy
  error is thrown to the caller, \<open>fn\<close> is not called and \<open>inTransaction\<close> is false again.
  With the default that is 120 busy answers absorbed and the error at the 121st. Every
  busy wait lasts between 200 and 1199 milliseconds.
\<close>

theorem busy_retry_bounded:
  "RETRY_COUNT = 10
   \<and> ((\<forall>j<k. busy_at drv (clock c + j)) \<and> drv (clock c + k) = Inr out \<and> k \<le> RETRY_COUNT
        \<longrightarrow> fst (sqlite_call drv q c) = Inr out
            \<and> waits (snd (sqlite_call drv q c)) = waits c + k)
   \<and> ((\<forall>j\<le>RETRY_COUNT. busy_at drv (clock c + j))
        \<longrightarrow> (\<exists>e. fst (sqlite_call drv q c) = Inl e \<and> isBusyError e)
            \<and> waits (snd (sqlite_call drv q c)) = waits c + RETRY_COUNT)
   \<and> ((\<forall>j<m. busy_at drv (clock c + j)) \<and> drv (clock c + m) = Inr out
          \<and> drv (Suc (clock c + m)) = Inr out' \<and> m < (r + 1) * (RETRY_COUNT + 1)
        \<longrightarrow> fst (do_withTransaction drv f r c) = body f
            \<and> invoked_events (trace (snd (do_withTransaction drv f r c)))
                = invoked_events (trace c) @ [fid f]
            \<and> waits (snd (do_withTransaction drv f r c)) = waits c + m)
   \<and> ((\<forall>j<(r + 1) * (RETRY_COUNT + 1). busy_at drv (clock c + j))
        \<longrightarrow> (\<exists>e. fst (do_withTransaction drv f r c) = Inl e \<and> isBusyError e)
            \<and> invoked_events (trace (snd (do_withTransaction drv f r c)))
                = invoked_events (trace c)
            \<and> \<not> inTransaction (snd (do_withTransaction drv f r c))
            \<and> queries ''BEGIN IMMEDIATE'' (snd (do_withTransaction drv f r c))
                = queries ''BEGIN IMMEDIATE'' c + (r + 1) * (RETRY_COUNT + 1)
            \<and> waits (snd (do_withTransaction drv f r c))
                = waits c + (r + 1) * (RETRY_COUNT + 1) - 1)
   \<and> (0 \<le> x \<and> x < 1 \<longrightarrow> 200 \<le> busyWait_ms x \<and> busyWait_ms x \<le> 1199)"
  using sqlite_call_recovers [of k drv c out q] sqlite_call_exhausted [of drv c q]
    do_withTransaction_recovers [of m drv c out out' r f]
    do_withTransaction_exhausted [of r drv c f] busyWait_ms_bounds [of x]
  by (simp add: RETRY_COUNT_def)

lemma busy_at_busy_until: "busy_at (busy_until m) n = (n < m)"
  by (simp add: busy_at_def busy_until_def isBusyError_def)

text \<open>
  Drivers that are busy 3, 11, 120 and 121 times, with the default \<open>busyRetry\<close>, and a
  busy wait when \<open>Math.random()\<close> returns one half.
\<close>

theorem busy_retry_bounded_witness:
  "fst (sqlite_call (busy_until 3) ''select 1'' (new_conn ''db'' False)) = Inr JUndefined
   \<and> waits (snd (sqlite_call (busy_until 3) ''select 1'' (new_conn ''db'' False))) = 3
   \<and> (\<exists>e. fst (sqlite_call (busy_until 11) ''select 1'' (new_conn ''db'' False)) = Inl e
          \<and> isBusyError e)
   \<and> fst (do_withTransaction (busy_until 120) (Fn 1 (Inr (JNum 7))) RETRY_COUNT
            (new_conn ''db'' False)) = Inr (JNum 7)
   \<and> waits (snd (do_withTransaction (busy_until 120) (Fn 1 (Inr (JNum 7))) RETRY_COUNT
            (new_conn ''db'' False))) = 120
   \<and> (\<exists>e. fst (do_withTransaction (busy_until 121) (Fn 1 (Inr (JNum 7))) RETRY_COUNT
            (new_conn ''db'' False)) = Inl e \<and> isBusyError e)
   \<and> invoked_events (trace (snd (do_withTransaction (busy_until 121) (Fn 1 (Inr (JNum 7)))
            RETRY_COUNT (new_conn ''db'' False)))) = []
   \<and> queries ''BEGIN IMMEDIATE'' (snd (do_withTransaction (busy_until 121)
            (Fn 1 (Inr (JNum 7))) RETRY_COUNT (new_conn ''db'' False))) = 121
   \<and> busyWait_ms (1 / 2) = 700"
proof -
  let ?c = "new_conn ''db'' False"
  let ?f = "Fn 1 (Inr (JNum 7))"
  let ?q = "''select 1''"
  have c: "clock ?c = 0" "waits ?c = 0" "queries ''BEGIN IMMEDIATE'' ?c = 0"
    "invoked_events (trace ?c) = []"
    by (simp_all add: new_conn_def waits_def queries_def)
  have r: "RETRY_COUNT = 10" by (simp add: RETRY_COUNT_def)
  have h1: "(\<forall>j<3. busy_at (busy_until 3) (clock ?c + j))
              \<and> busy_until 3 (clock ?c + 3) = Inr JUndefined \<and> 3 \<le> RETRY_COUNT"
    by (simp add: busy_at_busy_until c r busy_until_def)
  have h2: "\<forall>j\<le>RETRY_COUNT. busy_at (busy_until 11) (clock ?c + j)"
    by (simp add: busy_at_busy_until c r)
  have h3: "(\<forall>j<120. busy_at (busy_until 120) (clock ?c + j))
              \<and> busy_until 120 (clock ?c + 120) = Inr JUndefined
              \<and> busy_until 120 (Suc (clock ?c + 120)) = Inr JUndefined
              \<and> 120 < (RETRY_COUNT + 1) * (RETRY_COUNT + 1)"
    by (simp add: busy_at_busy_until c r busy_until_def)
  have h4: "\<forall>j<(RETRY_COUNT + 1) * (RETRY_COUNT + 1). busy_at (busy_until 121) (clock ?c + j)"
    by (simp add: busy_at_busy_until c r)
  have h5: "0 \<le> (1 / 2 :: real) \<and> (1 / 2 :: real) < 1" by simp
  from busy_retry_bounded [of 3 "busy_until 3" ?c JUndefined ?q 0 JUndefined RETRY_COUNT ?f 0] h1
  have a1: "fst (sqlite_call (busy_until 3) ?q ?c) = Inr JUndefined
              \<and> waits (snd (sqlite_call (busy_until 3) ?q ?c)) = waits ?c + 3"
    by blast
  from busy_retry_bounded [of 0 "busy_until 11" ?c JUndefined ?q 0 JUndefined RETRY_COUNT ?f 0] h2
  have a2: "\<exists>e. fst (sqlite_call (busy_until 11) ?q ?c) = Inl e \<and> isBusyError e"
    by blast
  from busy_retry_bounded [of 0 "busy_until 120" ?c JUndefined ?q 120 JUndefined RETRY_COUNT ?f 0] h3
  have a3: "fst (do_withTransaction (busy_until 120) ?f RETRY_COUNT ?c) = body ?f
              \<and> waits (snd (do_withTransaction (busy_until 120) ?f RETRY_COUNT ?c)) = waits ?c + 120"
    by blast
  from busy_retry_bounded [of 0 "busy_until 121" ?c JUndefined ?q 0 JUndefined RETRY_COUNT ?f 0] h4
  have a4: "(\<exists>e. fst (do_withTransaction (busy_until 121) ?f RETRY_COUNT ?c) = Inl e
                \<and> isBusyError e)
              \<and> invoked_events (trace (snd (do_withTransaction (busy_until 121) ?f RETRY_COUNT ?c)))
                  = invoked_events (trace ?c)
              \<and> queries ''BEGIN IMMEDIATE'' (snd (do_withTransaction (busy_until 121) ?f RETRY_COUNT ?c))
                  = queries ''BEGIN IMMEDIATE'' ?c + (RETRY_COUNT + 1) * (RETRY_COUNT + 1)"
    by blast
  from busy_retry_bounded [of 0 "busy_until 0" ?c JUndefined ?q 0 JUndefined RETRY_COUNT ?f "1 / 2"] h5
  have a5: "200 \<le> busyWait_ms (1 / 2) \<and> busyWait_ms (1 / 2) \<le> 1199"
    by blast
  have a6: "busyWait_ms (1 / 2) = 700" by (simp add: busyWait_ms_def)
  have e: "(RETRY_COUNT + 1) * (RETRY_COUNT + 1) = 121" by (simp add: r)
  show ?thesis
    using a1 a2 a3 a4 a5 a6 by (simp only: c e fn.sel add_0 simp_thms)
qed

text \<open>
  Claim C8 as stated gives \<open>BEGIN IMMEDIATE\<close> one budget of 10 retries, after which the
  busy error is surfaced. It has more: when the database is busy for the first 11
  attempts, the eleventh busy answer exhausts the budget of the statement, the
  transaction is retried, and the caller gets the result of \<open>fn\<close> and no error, after 11
  busy waits and 12 attempts.
\<close>

theorem busy_eleven_absorbed:
  "fst (do_withTransaction (busy_until 11) (Fn 1 (Inr (JNum 7))) RETRY_COUNT
          (new_conn ''db'' False)) = Inr (JNum 7)
   \<and> waits (snd (do_withTransaction (busy_until 11) (Fn 1 (Inr (JNum 7))) RETRY_COUNT
          (new_conn ''db'' False))) = 11
   \<and> queries ''BEGIN IMMEDIATE'' (snd (do_withTransaction (busy_until 11)
          (Fn 1 (Inr (JNum 7))) RETRY_COUNT (new_conn ''db'' False))) = 12
   \<and> busy_at (busy_until 11) RETRY_COUNT"
  by code_simp

section \<open>Properties of the transaction chain\<close>

text \<open>Only the call of a transaction function adds to the functions invoked.\<close>

lemma call_retry_frame:
  "invoked_events (trace (snd (call_retry drv q r c))) = invoked_events (trace c)
     \<and> readOnly (snd (call_retry drv q r c)) = readOnly c"
proof (induction drv q r c rule: call_retry.induct)
  case (1 drv q busyRetry c)
  show ?case
  proof (cases "drv (clock c)")
    case (Inr out)
    then show ?thesis
      by (subst (1 2) call_retry.simps) (simp add: Let_def invoked_events_append)
  next
    case (Inl err)
    show ?thesis
    proof (cases "isBusyError err \<and> busyRetry \<noteq> 0")
      case True
      with 1 [OF refl Inl] Inl show ?thesis
        by (subst (1 2) call_retry.simps) (simp add: Let_def busyWait_def invoked_events_append)
    next
      case False
      with Inl show ?thesis
        by (subst (1 2) call_retry.simps) (auto simp add: Let_def invoked_events_append)
    qed
  qed
qed

lemma exec_frame:
  "invoked_events (trace (snd (exec drv q c))) = invoked_events (trace c)
     \<and> readOnly (snd (exec drv q c)) = readOnly c"
proof -
  have "snd (exec drv q c) = snd (call_retry drv q RETRY_COUNT c)"
    by (simp add: exec_def sqlite_call_def split: prod.splits sum.splits)
  then show ?thesis
    using call_retry_frame [of drv q RETRY_COUNT c] by simp
qed

lemma busyWait_readOnly [simp]: "readOnly (busyWait c) = readOnly c"
  by (simp add: busyWait_def)

lemma emit_readOnly [simp]: "readOnly (emit ev c) = readOnly c"
  by (simp add: emit_def)

lemma called_readOnly [simp]: "readOnly (called f c) = readOnly c"
  by (simp add: called_def)

lemma begin_tx_frame:
  "invoked_events (trace (snd (begin_tx drv r c))) = invoked_events (trace c)
     \<and> readOnly (snd (begin_tx drv r c)) = readOnly c"
proof (induction r arbitrary: c)
  case 0
  show ?case
    using exec_frame [of drv "''BEGIN IMMEDIATE''" "c\<lparr>inTransaction := True\<rparr>"]
    by (subst (1 2) begin_tx.simps) (auto split: prod.splits sum.splits)
next
  case (Suc r)
  show ?case
    using exec_frame [of drv "''BEGIN IMMEDIATE''" "c\<lparr>inTransaction := True\<rparr>"]
    by (subst (1 2) begin_tx.simps) (auto simp: Suc.IH split: prod.splits sum.splits)
qed

lemma settle_tx_frame:
  "invoked_events (trace (snd (settle_tx drv f c))) = invoked_events (trace c)
     \<and> readOnly (snd (settle_tx drv f c)) = readOnly c"
  using exec_frame [of drv "''ROLLBACK''" c] exec_frame [of drv "''END''" c]
  by (auto simp: settle_tx_def split: prod.splits sum.splits)


text \<open>The shape of the chain.\<close>

lemma serial_waiting: "list_all (\<lambda>q. q = Waiting) ps \<Longrightarrow> serial ps"
  by (induction ps) simp_all

lemma serial_append_Waiting: "serial ps \<Longrightarrow> serial (ps @ [Waiting])"
  by (induction ps) simp_all

lemma waiting_nth: "list_all (\<lambda>q. q = Waiting) ps \<Longrightarrow> j < length ps \<Longrightarrow> ps ! j = Waiting"
  by (simp add: list_all_length)

lemma serial_start:
  "serial ps \<Longrightarrow> i < length ps \<Longrightarrow> ps ! i = Waiting \<Longrightarrow> i = 0 \<or> is_settled (ps ! (i - 1))
     \<Longrightarrow> serial (ps[i := x])"
proof (induction ps arbitrary: i)
  case Nil
  then show ?case by simp
next
  case (Cons p ps)
  show ?case
  proof (cases i)
    case 0
    with Cons.prems show ?thesis by (simp add: serial_waiting)
  next
    case (Suc k)
    show ?thesis
    proof (cases "is_settled p")
      case True
      have "k = 0 \<or> is_settled (ps ! (k - 1))"
        using Cons.prems(4) Suc by (cases k) simp_all
      with Cons.IH [of k] Cons.prems Suc True show ?thesis by simp
    next
      case False
      with Cons.prems(1) have w: "list_all (\<lambda>q. q = Waiting) ps" by simp
      show ?thesis
      proof (cases k)
        case 0
        with Cons.prems(4) Suc False show ?thesis by simp
      next
        case (Suc m)
        with Cons.prems \<open>i = Suc k\<close> have "m < length ps" "is_settled (ps ! m)" by simp_all
        with waiting_nth [OF w, of m] show ?thesis by simp
      qed
    qed
  qed
qed

lemma serial_finish:
  "serial ps \<Longrightarrow> i < length ps \<Longrightarrow> ps ! i = Running \<Longrightarrow> serial (ps[i := x])"
proof (induction ps arbitrary: i)
  case Nil
  then show ?case by simp
next
  case (Cons p ps)
  show ?case
  proof (cases i)
    case 0
    with Cons.prems show ?thesis by (simp add: serial_waiting)
  next
    case (Suc k)
    show ?thesis
    proof (cases "is_settled p")
      case True
      with Cons.IH [of k] Cons.prems Suc show ?thesis by simp
    next
      case False
      with Cons.prems(1) have w: "list_all (\<lambda>q. q = Waiting) ps" by simp
      from Cons.prems Suc have "k < length ps" "ps ! k = Running" by simp_all
      with waiting_nth [OF w, of k] show ?thesis by simp
    qed
  qed
qed

lemma waiting_no_running: "list_all (\<lambda>q. q = Waiting) ps \<Longrightarrow> filter (\<lambda>q. q = Running) ps = []"
  by (induction ps) simp_all

lemma serial_running: "serial ps \<Longrightarrow> length (filter (\<lambda>q. q = Running) ps) \<le> 1"
proof (induction ps)
  case Nil
  then show ?case by simp
next
  case (Cons p ps)
  show ?case
  proof (cases "is_settled p")
    case True
    then have "p \<noteq> Running" by auto
    with Cons True show ?thesis by simp
  next
    case False
    with Cons.prems have "list_all (\<lambda>q. q = Waiting) ps" by simp
    then show ?thesis by (simp add: waiting_no_running)
  qed
qed

lemma serial_after:
  "serial ps \<Longrightarrow> i < length ps \<Longrightarrow> \<not> is_settled (ps ! i) \<Longrightarrow> i < j \<Longrightarrow> j < length ps
     \<Longrightarrow> ps ! j = Waiting"
proof (induction ps arbitrary: i j)
  case Nil
  then show ?case by simp
next
  case (Cons p ps)
  show ?case
  proof (cases "is_settled p")
    case True
    with Cons.prems obtain k m where "i = Suc k" "j = Suc m"
      by (cases i; cases j) auto
    with Cons.IH [of k m] Cons.prems True show ?thesis by simp
  next
    case False
    with Cons.prems(1) have w: "list_all (\<lambda>q. q = Waiting) ps" by simp
    from Cons.prems obtain m where "j = Suc m" "m < length ps" by (cases j) auto
    with waiting_nth [OF w, of m] show ?thesis by simp
  qed
qed


text \<open>What the actions do to the chain and to the functions invoked.\<close>

lemma promise_then_same:
  "promise_then p (\<lambda>v. a) (\<lambda>e. a) = (if is_settled p then Some a else None)"
  by (cases p) (simp_all add: promise_then_def)

lemma settled_is_settled [simp]: "is_settled (settled r)"
  by (cases r) (simp_all add: settled_def)

lemma nextTransaction_effect:
  "\<exists>X. X \<noteq> Waiting
     \<and> chain (nextTransaction drv i s) = (chain s)[i := (fst (chain s ! i), X)]
     \<and> invoked (nextTransaction drv i s)
         = (if X = Running then invoked s @ [fid (fst (chain s ! i))] else invoked s)
     \<and> opened (nextTransaction drv i s) = opened s
     \<and> holding (nextTransaction drv i s) = holding s
     \<and> readOnly (db (nextTransaction drv i s)) = readOnly (db s)"
proof (cases "begin_tx drv RETRY_COUNT (db s)")
  case (Pair r c)
  with begin_tx_frame [of drv RETRY_COUNT "db s"]
  have c: "invoked_events (trace c) = invoked_events (trace (db s))" "readOnly c = readOnly (db s)"
    by simp_all
  show ?thesis
  proof (cases r)
    case None
    with Pair c show ?thesis
      by (intro exI [of _ Running]) (simp add: nextTransaction_def Let_def invoked_def)
  next
    case (Some e)
    with Pair c show ?thesis
      by (intro exI [of _ "Rejected e"]) (simp add: nextTransaction_def Let_def invoked_def)
  qed
qed

lemma finish_effect:
  "\<exists>X. is_settled X
     \<and> chain (finish drv i s) = (chain s)[i := (fst (chain s ! i), X)]
     \<and> invoked (finish drv i s) = invoked s
     \<and> opened (finish drv i s) = opened s
     \<and> holding (finish drv i s) = holding s
     \<and> readOnly (db (finish drv i s)) = readOnly (db s)"
proof (cases "settle_tx drv (fst (chain s ! i)) (db s)")
  case (Pair r c)
  with settle_tx_frame [of drv "fst (chain s ! i)" "db s"]
  have c: "invoked_events (trace c) = invoked_events (trace (db s))" "readOnly c = readOnly (db s)"
    by simp_all
  with Pair show ?thesis
    by (intro exI [of _ "settled r"]) (simp add: finish_def Let_def invoked_def)
qed

lemma step_serial:
  assumes "step drv a s = Some s'" "serial (map snd (chain s))"
  shows "serial (map snd (chain s'))"
proof (cases a)
  case (Call f)
  with assms show ?thesis
    by (auto simp: chain_call_def serial_append_Waiting split: if_splits)
next
  case Opened
  with assms show ?thesis by (auto split: if_splits)
next
  case Resume
  with assms show ?thesis
    by (auto simp: chain_call_def serial_append_Waiting split: if_splits list.splits)
next
  case (Start i)
  with assms(1) have i: "i < length (chain s)" "snd (chain s ! i) = Waiting"
    "is_settled (previous s i)" "s' = nextTransaction drv i s"
    by (auto simp: promise_then_same split: if_splits)
  from nextTransaction_effect [of drv i s] obtain X where
    X: "chain (nextTransaction drv i s) = (chain s)[i := (fst (chain s ! i), X)]"
    by blast
  have "i = 0 \<or> is_settled (map snd (chain s) ! (i - 1))"
    using i(1,3) by (cases i) (simp_all add: previous_def)
  with serial_start [OF assms(2), of i X] i show ?thesis
    by (simp add: X map_update)
next
  case (Finish i)
  with assms(1) have i: "i < length (chain s)" "snd (chain s ! i) = Running"
    "s' = finish drv i s"
    by (auto split: if_splits)
  from finish_effect [of drv i s] obtain X where
    X: "chain (finish drv i s) = (chain s)[i := (fst (chain s ! i), X)]"
    by blast
  from serial_finish [OF assms(2), of i X] i show ?thesis
    by (simp add: X map_update)
qed

lemma run_append:
  "run drv (as @ bs) s = (case run drv as s of None \<Rightarrow> None | Some s' \<Rightarrow> run drv bs s')"
  by (induction as arbitrary: s) (simp_all split: option.splits)

lemma run_serial:
  "run drv as s = Some s' \<Longrightarrow> serial (map snd (chain s)) \<Longrightarrow> serial (map snd (chain s'))"
proof (induction as arbitrary: s)
  case Nil
  then show ?case by simp
next
  case (Cons a as)
  then show ?case by (auto split: option.splits dest: step_serial)
qed


text \<open>The order of invocation follows the chain.\<close>

lemma filter_begun_start:
  assumes "i < length ps" "\<forall>j. i < j \<and> j < length ps \<longrightarrow> snd (ps ! j) = Waiting"
    "snd (ps ! i) = Waiting" "X \<noteq> Waiting"
  shows "filter (\<lambda>p. snd p \<noteq> Waiting) (ps[i := (f, X)])
           = filter (\<lambda>p. snd p \<noteq> Waiting) ps @ [(f, X)]"
proof -
  have "\<forall>p\<in>set (drop (Suc i) ps). snd p = Waiting"
  proof
    fix p assume "p \<in> set (drop (Suc i) ps)"
    then obtain k where "p = ps ! (Suc i + k)" "Suc i + k < length ps"
      by (auto simp: in_set_conv_nth)
    with assms(2) show "snd p = Waiting" by simp
  qed
  then have d: "filter (\<lambda>p. snd p \<noteq> Waiting) (drop (Suc i) ps) = []"
    by (simp add: filter_empty_conv)
  have "ps = take i ps @ ps ! i # drop (Suc i) ps"
    using assms(1) by (simp add: id_take_nth_drop)
  then have "filter (\<lambda>p. snd p \<noteq> Waiting) ps
               = filter (\<lambda>p. snd p \<noteq> Waiting) (take i ps @ ps ! i # drop (Suc i) ps)"
    by simp
  also have "\<dots> = filter (\<lambda>p. snd p \<noteq> Waiting) (take i ps)"
    using assms(3) d by simp
  finally have a: "filter (\<lambda>p. snd p \<noteq> Waiting) ps = filter (\<lambda>p. snd p \<noteq> Waiting) (take i ps)" .
  have "ps[i := (f, X)] = take i ps @ (f, X) # drop (Suc i) ps"
    using assms(1) by (simp add: upd_conv_take_nth_drop)
  then show ?thesis
    using assms(4) d a by simp
qed

lemma filter_begun_finish:
  "i < length ps \<Longrightarrow> snd (ps ! i) \<noteq> Waiting \<Longrightarrow> X \<noteq> Waiting
     \<Longrightarrow> map (\<lambda>p. fid (fst p)) (filter (\<lambda>p. snd p \<noteq> Waiting) (ps[i := (fst (ps ! i), X)]))
         = map (\<lambda>p. fid (fst p)) (filter (\<lambda>p. snd p \<noteq> Waiting) ps)"
proof (induction ps arbitrary: i)
  case Nil
  then show ?case by simp
next
  case (Cons p ps)
  then show ?case by (cases i) simp_all
qed

lemma step_order:
  assumes "step drv a s = Some s'" "serial (map snd (chain s))" "subseq (invoked s) (begun s)"
  shows "subseq (invoked s') (begun s')"
proof (cases a)
  case (Call f)
  with assms show ?thesis
    by (auto simp: chain_call_def begun_def invoked_def split: if_splits)
next
  case Opened
  with assms show ?thesis by (auto simp: begun_def invoked_def split: if_splits)
next
  case Resume
  with assms show ?thesis
    by (auto simp: chain_call_def begun_def invoked_def split: if_splits list.splits)
next
  case (Start i)
  with assms(1) have i: "i < length (chain s)" "snd (chain s ! i) = Waiting"
    "s' = nextTransaction drv i s"
    by (auto simp: promise_then_same split: if_splits)
  from nextTransaction_effect [of drv i s] obtain X where
    X: "X \<noteq> Waiting" "chain s' = (chain s)[i := (fst (chain s ! i), X)]"
       "invoked s' = (if X = Running then invoked s @ [fid (fst (chain s ! i))] else invoked s)"
    using i(3) by blast
  have "\<forall>j. i < j \<and> j < length (chain s) \<longrightarrow> snd (chain s ! j) = Waiting"
  proof (intro allI impI)
    fix j assume j: "i < j \<and> j < length (chain s)"
    with serial_after [OF assms(2), of i j] i show "snd (chain s ! j) = Waiting" by simp
  qed
  from filter_begun_start [OF i(1) this i(2) X(1)]
  have b: "begun s' = begun s @ [fid (fst (chain s ! i))]"
    by (simp add: begun_def X(2))
  show ?thesis
  proof (cases "X = Running")
    case True
    with assms(3) show ?thesis by (simp add: b X(3))
  next
    case False
    with assms(3) show ?thesis by (auto simp: b X(3))
  qed
next
  case (Finish i)
  with assms(1) have i: "i < length (chain s)" "snd (chain s ! i) = Running"
    "s' = finish drv i s"
    by (auto split: if_splits)
  from finish_effect [of drv i s] obtain X where
    X: "is_settled X" "chain s' = (chain s)[i := (fst (chain s ! i), X)]" "invoked s' = invoked s"
    using i(3) by blast
  from X(1) have "X \<noteq> Waiting" by auto
  with filter_begun_finish [of i "chain s" X] i(1,2) have "begun s' = begun s"
    by (simp add: begun_def X(2))
  with assms(3) show ?thesis by (simp add: X(3))
qed

lemma run_order:
  "run drv as s = Some s' \<Longrightarrow> serial (map snd (chain s)) \<Longrightarrow> subseq (invoked s) (begun s)
     \<Longrightarrow> subseq (invoked s') (begun s')"
proof (induction as arbitrary: s)
  case Nil
  then show ?case by simp
next
  case (Cons a as)
  from Cons.prems(1) obtain t where t: "step drv a s = Some t" "run drv as t = Some s'"
    by (auto split: option.splits)
  from step_serial [OF t(1) Cons.prems(2)] step_order [OF t(1) Cons.prems(2,3)]
  show ?case by (rule Cons.IH [OF t(2)])
qed

lemma begun_chained: "subseq (begun s) (chained s)"
  by (simp add: begun_def chained_def subseq_map)

text \<open>On an open connection every call is chained at once, so the chain is in call order.\<close>

lemma chained_update:
  "map (\<lambda>p. fid (fst p)) (ps[i := (fst (ps ! i), X)]) = map (\<lambda>p. fid (fst p)) ps"
proof (induction ps arbitrary: i)
  case Nil
  then show ?case by simp
next
  case (Cons p ps)
  then show ?case by (cases i) simp_all
qed

lemma step_chained:
  assumes "step drv a s = Some s'" "opened s" "\<not> readOnly (db s)" "holding s = []"
  shows "chained s' = chained s @ calls [a] \<and> opened s' \<and> \<not> readOnly (db s') \<and> holding s' = []"
proof (cases a)
  case (Call f)
  with assms show ?thesis by (auto simp: chain_call_def chained_def)
next
  case Opened
  with assms show ?thesis by auto
next
  case Resume
  with assms show ?thesis by auto
next
  case (Start i)
  with assms(1) have "s' = nextTransaction drv i s"
    by (auto simp: promise_then_same split: if_splits)
  with nextTransaction_effect [of drv i s] assms Start show ?thesis
    by (auto simp: chained_def chained_update)
next
  case (Finish i)
  with assms(1) have "s' = finish drv i s"
    by (auto split: if_splits)
  with finish_effect [of drv i s] assms Finish show ?thesis
    by (auto simp: chained_def chained_update)
qed

lemma calls_Cons: "calls (a # as) = calls [a] @ calls as"
  by (cases a) simp_all

lemma run_chained:
  "run drv as s = Some s' \<Longrightarrow> opened s \<Longrightarrow> \<not> readOnly (db s) \<Longrightarrow> holding s = []
     \<Longrightarrow> chained s' = chained s @ calls as"
proof (induction as arbitrary: s)
  case Nil
  then show ?case by simp
next
  case (Cons a as)
  from Cons.prems(1) obtain t where t: "step drv a s = Some t" "run drv as t = Some s'"
    by (auto split: option.splits)
  from step_chained [OF t(1) Cons.prems(2,3,4)]
  have "chained t = chained s @ calls [a]" "opened t" "\<not> readOnly (db t)" "holding t = []"
    by simp_all
  with Cons.IH [OF t(2)] show ?case
    by (simp add: calls_Cons [of a as])
qed

text \<open>Calls made one after the other on an open connection, then left to run.\<close>

lemma run_calls:
  "opened s \<Longrightarrow> \<not> readOnly (db s)
     \<Longrightarrow> run drv (map Call fs) s = Some (s\<lparr>chain := chain s @ map (\<lambda>f. (f, Waiting)) fs\<rparr>)"
proof (induction fs arbitrary: s)
  case Nil
  then show ?case by simp
next
  case (Cons f fs)
  have "run drv (map Call (f # fs)) s = run drv (map Call fs) (chain_call f s)"
    using Cons.prems by simp
  also have "\<dots> = Some ((chain_call f s)\<lparr>chain := chain (chain_call f s) @ map (\<lambda>f. (f, Waiting)) fs\<rparr>)"
    using Cons.prems by (intro Cons.IH) (simp_all add: chain_call_def)
  finally show ?case by (simp add: chain_call_def)
qed

lemma drain_step:
  assumes ok: "\<forall>n. \<exists>v. drv n = Inr v" and k: "k < length fs" and p: "processed fs k s"
  shows "\<exists>s'. run drv [Start k, Finish k] s = Some s' \<and> processed fs (Suc k) s'"
proof -
  let ?f = "fs ! k"
  from p k have len: "length (chain s) = length fs" and ck: "chain s ! k = (?f, Waiting)"
    and inv: "invoked s = map fid (take k fs)"
    by (simp_all add: processed_def)
  have prev: "is_settled (previous s k)"
  proof (cases k)
    case 0
    then show ?thesis by (simp add: previous_def)
  next
    case (Suc m)
    with p k have "chain s ! m = (fs ! m, settled (body (fs ! m)))"
      by (simp add: processed_def)
    with Suc show ?thesis by (simp add: previous_def)
  qed
  from ok obtain v where v: "drv (clock (db s) + 0) = Inr v" by auto
  have "\<forall>j<0. busy_at drv (clock (db s) + j)" by simp
  from begin_tx_recovers [OF this v, of RETRY_COUNT] obtain c1 where
    c1: "begin_tx drv RETRY_COUNT (db s) = (None, c1)"
        "invoked_events (trace c1) = invoked_events (trace (db s))"
    by auto
  define s1 where "s1 = s\<lparr>db := called ?f c1, chain := (chain s)[k := (?f, Running)]\<rparr>"
  have n: "nextTransaction drv k s = s1"
    by (simp add: nextTransaction_def Let_def c1 ck s1_def)
  have st: "step drv (Start k) s = Some s1"
    using k len ck prev by (simp add: promise_then_same n)
  from ok obtain v' where v': "drv (clock (db s1)) = Inr v'" by auto
  from settle_tx_ok [of drv "db s1" v' ?f, OF this] obtain c2 where
    c2: "settle_tx drv ?f (db s1) = (body ?f, c2)"
        "invoked_events (trace c2) = invoked_events (trace (db s1))"
    by auto
  define s2 where "s2 = s1\<lparr>db := c2, chain := (chain s1)[k := (?f, settled (body ?f))]\<rparr>"
  have c1k: "chain s1 ! k = (?f, Running)"
    using k len by (simp add: s1_def)
  have f: "finish drv k s1 = s2"
    by (simp add: finish_def Let_def c1k c2 s2_def)
  have fi: "step drv (Finish k) s1 = Some s2"
    using k len c1k by (simp add: f) (simp add: s1_def)
  have "invoked s2 = invoked s @ [fid ?f]"
    by (simp add: invoked_def s2_def c2) (simp add: s1_def c1)
  then have i2: "invoked s2 = map fid (take (Suc k) fs)"
    using k by (simp add: inv take_Suc_conv_app_nth)
  have ch: "chain s2 = (chain s)[k := (?f, settled (body ?f))]"
    by (simp add: s2_def s1_def)
  have "\<forall>j<length fs. chain s2 ! j
          = (fs ! j, if j < Suc k then settled (body (fs ! j)) else Waiting)"
  proof (intro allI impI)
    fix j assume j: "j < length fs"
    show "chain s2 ! j = (fs ! j, if j < Suc k then settled (body (fs ! j)) else Waiting)"
    proof (cases "j = k")
      case True
      with k len show ?thesis by (simp add: ch)
    next
      case False
      with p j show ?thesis by (auto simp: ch processed_def)
    qed
  qed
  with i2 len have "processed fs (Suc k) s2"
    by (simp add: processed_def ch)
  moreover have "run drv [Start k, Finish k] s = Some s2"
    by (simp only: run.simps st fi option.case)
  ultimately show ?thesis by blast
qed

lemma drain_Suc: "drain (Suc k) = drain k @ [Start k, Finish k]"
  by (simp add: drain_def)

lemma drain_all:
  assumes ok: "\<forall>n. \<exists>v. drv n = Inr v"
  shows "k \<le> length fs \<Longrightarrow> processed fs 0 s
           \<Longrightarrow> \<exists>s'. run drv (drain k) s = Some s' \<and> processed fs k s'"
proof (induction k)
  case 0
  then show ?case by (simp add: drain_def)
next
  case (Suc k)
  then obtain s1 where s1: "run drv (drain k) s = Some s1" "processed fs k s1" by auto
  from Suc.prems have "k < length fs" by simp
  from drain_step [OF ok this s1(2)] obtain s2 where
    "run drv [Start k, Finish k] s1 = Some s2" "processed fs (Suc k) s2"
    by blast
  with s1(1) show ?case
    by (simp add: drain_Suc run_append)
qed

lemma drain_calls:
  assumes ok: "\<forall>n. \<exists>v. drv n = Inr v"
  shows "\<exists>s. run drv (map Call fs @ drain (length fs)) (new_process n False True) = Some s
           \<and> chain s = map (\<lambda>f. (f, settled (body f))) fs \<and> invoked s = map fid fs"
proof -
  let ?s0 = "new_process n False True"
  let ?s1 = "?s0\<lparr>chain := chain ?s0 @ map (\<lambda>f. (f, Waiting)) fs\<rparr>"
  have r1: "run drv (map Call fs) ?s0 = Some ?s1"
    by (rule run_calls) (simp_all add: new_process_def new_conn_def)
  have "processed fs 0 ?s1"
    by (simp add: processed_def new_process_def new_conn_def invoked_def)
  from drain_all [OF ok _ this, of "length fs"] obtain s where
    s: "run drv (drain (length fs)) ?s1 = Some s" "processed fs (length fs) s"
    by auto
  from s(2) have "chain s = map (\<lambda>f. (f, settled (body f))) fs"
    by (intro nth_equalityI) (simp_all add: processed_def)
  moreover from s(2) have "invoked s = map fid fs"
    by (simp add: processed_def)
  moreover have "run drv (map Call fs @ drain (length fs)) ?s0 = Some s"
    by (simp add: run_append r1 s(1))
  ultimately show ?thesis by blast
qed

lemma start_after_rejection:
  assumes "Suc i < length (chain t)" "snd (chain t ! i) = Rejected e"
    "snd (chain t ! Suc i) = Waiting"
  shows "step drv (Start (Suc i)) t = Some (nextTransaction drv (Suc i) t)"
  using assms by (simp add: promise_then_same previous_def)

text \<open>
  Claim C10. Calls \<open>withTransaction(f)\<close> for the functions \<open>fs\<close>, made one after the other
  on an open, writable connection whose driver accepts every statement, and left to run:
  whichever of the functions throw, every function is invoked exactly once, in order, and
  every promise settles with what its own function settled with (rejected when it threw).
  In any state, the \<open>then\<close> callback of a waiting promise runs when the promise it was
  chained to is rejected, as it does when that promise is fulfilled.
\<close>

theorem rejection_does_not_block:
  "((\<forall>k. \<exists>v. drv k = Inr v) \<longrightarrow>
      (\<exists>s. run drv (map Call fs @ drain (length fs)) (new_process n False True) = Some s
          \<and> chain s = map (\<lambda>f. (f, settled (body f))) fs \<and> invoked s = map fid fs))
   \<and> (Suc i < length (chain t) \<and> snd (chain t ! i) = Rejected e
        \<and> snd (chain t ! Suc i) = Waiting
      \<longrightarrow> step drv (Start (Suc i)) t = Some (nextTransaction drv (Suc i) t))"
  using drain_calls [of drv fs n] start_after_rejection [of i t e drv] by blast

text \<open>A function that throws, followed by one that returns.\<close>

theorem rejection_does_not_block_witness:
  "(\<exists>s. run (busy_until 0)
          ([Call (Fn 1 (Inl (TypeError ''boom''))), Call (Fn 2 (Inr JNull))] @ drain 2)
          (new_process ''db'' False True) = Some s
       \<and> chain s = [(Fn 1 (Inl (TypeError ''boom'')), Rejected (TypeError ''boom'')),
                     (Fn 2 (Inr JNull), Fulfilled JNull)]
       \<and> invoked s = [1, 2])
   \<and> step (busy_until 0) (Start (Suc 0))
        \<lparr>db = new_conn ''db'' False, opened = True, holding = [],
           chain = [(Fn 1 (Inl (TypeError ''boom'')), Rejected (TypeError ''boom'')),
                    (Fn 2 (Inr JNull), Waiting)]\<rparr>
       = Some (nextTransaction (busy_until 0) (Suc 0)
          \<lparr>db = new_conn ''db'' False, opened = True, holding = [],
             chain = [(Fn 1 (Inl (TypeError ''boom'')), Rejected (TypeError ''boom'')),
                      (Fn 2 (Inr JNull), Waiting)]\<rparr>)"
proof -
  let ?fs = "[Fn 1 (Inl (TypeError ''boom'')), Fn 2 (Inr JNull)]"
  let ?t = "\<lparr>db = new_conn ''db'' False, opened = True, holding = [],
           chain = [(Fn 1 (Inl (TypeError ''boom'')), Rejected (TypeError ''boom'')),
                    (Fn 2 (Inr JNull), Waiting)]\<rparr>"
  have ok: "\<forall>k. \<exists>v. busy_until 0 k = Inr v"
    by (simp add: busy_until_def)
  have h: "Suc 0 < length (chain ?t) \<and> snd (chain ?t ! 0) = Rejected (TypeError ''boom'')
             \<and> snd (chain ?t ! Suc 0) = Waiting"
    by simp
  have m: "map Call ?fs = [Call (Fn 1 (Inl (TypeError ''boom''))), Call (Fn 2 (Inr JNull))]"
    "length ?fs = 2"
    "map (\<lambda>f. (f, settled (body f))) ?fs
       = [(Fn 1 (Inl (TypeError ''boom'')), Rejected (TypeError ''boom'')),
          (Fn 2 (Inr JNull), Fulfilled JNull)]"
    "map fid ?fs = [1, 2]"
    by (simp_all add: settled_def)
  from rejection_does_not_block [of "busy_until 0" ?fs "''db''" 0 ?t "TypeError ''boom''"] ok h
  have "(\<exists>s. run (busy_until 0) (map Call ?fs @ drain (length ?fs)) (new_process ''db'' False True)
              = Some s
            \<and> chain s = map (\<lambda>f. (f, settled (body f))) ?fs \<and> invoked s = map fid ?fs)
        \<and> step (busy_until 0) (Start (Suc 0)) ?t = Some (nextTransaction (busy_until 0) (Suc 0) ?t)"
    by blast
  then show ?thesis
    unfolding m by blast
qed

text \<open>
  Without overtaking, the functions chained followed by the functions of the suspended
  calls are the functions called, in call order: a call is chained or suspended behind all
  earlier ones, and the suspended calls are chained oldest first.
\<close>

lemma step_queue:
  assumes "step drv a s = Some s'" "\<not> readOnly (db s)" "\<not> overtakes a s"
  shows "chained s' @ map fid (holding s') = chained s @ map fid (holding s) @ calls [a]
           \<and> \<not> readOnly (db s')"
proof (cases a)
  case (Call f)
  with assms show ?thesis
    by (cases "opened s") (auto simp: chain_call_def chained_def overtakes_def)
next
  case Opened
  with assms show ?thesis by (auto simp: chained_def split: if_splits)
next
  case Resume
  with assms show ?thesis
    by (auto simp: chain_call_def chained_def split: list.splits if_splits)
next
  case (Start i)
  with assms(1) have "s' = nextTransaction drv i s"
    by (auto simp: promise_then_same split: if_splits)
  with nextTransaction_effect [of drv i s] assms Start show ?thesis
    by (auto simp: chained_def chained_update)
next
  case (Finish i)
  with assms(1) have "s' = finish drv i s"
    by (auto split: if_splits)
  with finish_effect [of drv i s] assms Finish show ?thesis
    by (auto simp: chained_def chained_update)
qed

lemma run_queue:
  "run drv as s = Some s' \<Longrightarrow> \<not> readOnly (db s) \<Longrightarrow> no_overtaking drv as s
     \<Longrightarrow> chained s' @ map fid (holding s') = chained s @ map fid (holding s) @ calls as"
proof (induction as arbitrary: s)
  case Nil
  then show ?case by simp
next
  case (Cons a as)
  from Cons.prems(1) obtain t where t: "step drv a s = Some t" "run drv as t = Some s'"
    by (auto split: option.splits)
  from Cons.prems(3) t(1) have n: "\<not> overtakes a s" "no_overtaking drv as t"
    by simp_all
  from step_queue [OF t(1) Cons.prems(2) n(1)]
  have q: "chained t @ map fid (holding t) = chained s @ map fid (holding s) @ calls [a]"
    "\<not> readOnly (db t)"
    by simp_all
  from Cons.IH [OF t(2) q(2) n(2)] q(1) show ?case
    by (simp add: calls_Cons [of a as])
qed

text \<open>
  Claim C7, as the code has it. Whatever the process does (calls, the connection opening,
  suspended calls resuming, \<open>then\<close> callbacks running, transaction functions settling, in
  any order that can happen), at most one transaction function is executing at a time,
  and the functions are invoked in the order in which their calls were chained to
  \<open>transactionP\<close>. When the connection is open and writable from the start, every call
  is chained as it is made, so that this is the order of the calls. On any writable
  connection, open or not, as long as no call overtakes a suspended one, the functions
  chained and then those of the calls still suspended are the functions called, in call
  order, so that the functions are invoked in the order of the calls.
\<close>

theorem transactions_serialised:
  "run drv acts (new_process n ro is_open) = Some s \<longrightarrow>
     length (running s) \<le> 1
     \<and> subseq (invoked s) (chained s)
     \<and> (is_open \<and> \<not> ro \<longrightarrow> chained s = calls acts)
     \<and> (\<not> ro \<and> no_overtaking drv acts (new_process n ro is_open)
          \<longrightarrow> chained s @ map fid (holding s) = calls acts \<and> subseq (invoked s) (calls acts))"
proof
  assume r: "run drv acts (new_process n ro is_open) = Some s"
  let ?s0 = "new_process n ro is_open"
  have s0: "serial (map snd (chain ?s0))" "subseq (invoked ?s0) (begun ?s0)"
    by (simp_all add: new_process_def new_conn_def invoked_def begun_def)
  from run_serial [OF r s0(1)] have "length (filter (\<lambda>q. q = Running) (map snd (chain s))) \<le> 1"
    by (rule serial_running)
  then have a: "length (running s) \<le> 1"
    by (simp add: running_def filter_map comp_def)
  from run_order [OF r s0] begun_chained [of s] have b: "subseq (invoked s) (chained s)"
    by (rule subseq_order.trans)
  have c: "chained s = calls acts" if "is_open \<and> \<not> ro"
  proof -
    from that have "opened ?s0" "\<not> readOnly (db ?s0)" "holding ?s0 = []"
      by (simp_all add: new_process_def new_conn_def)
    from run_chained [OF r this] show ?thesis
      by (simp add: chained_def new_process_def)
  qed
  have d: "chained s @ map fid (holding s) = calls acts \<and> subseq (invoked s) (calls acts)"
    if "\<not> ro \<and> no_overtaking drv acts ?s0"
  proof -
    from that have "\<not> readOnly (db ?s0)"
      by (simp add: new_process_def new_conn_def)
    moreover from that have "no_overtaking drv acts ?s0"
      by blast
    ultimately have "chained s @ map fid (holding s)
        = chained ?s0 @ map fid (holding ?s0) @ calls acts"
      by (rule run_queue [OF r])
    then have q: "chained s @ map fid (holding s) = calls acts"
      by (simp add: chained_def new_process_def)
    have "subseq (chained s) (chained s @ map fid (holding s))"
      by (simp add: prefix_imp_subseq)
    with b have "subseq (invoked s) (chained s @ map fid (holding s))"
      by (rule subseq_order.trans)
    with q show ?thesis
      by simp
  qed
  from a b c d show "length (running s) \<le> 1 \<and> subseq (invoked s) (chained s)
     \<and> (is_open \<and> \<not> ro \<longrightarrow> chained s = calls acts)
     \<and> (\<not> ro \<and> no_overtaking drv acts (new_process n ro is_open)
          \<longrightarrow> chained s @ map fid (holding s) = calls acts \<and> subseq (invoked s) (calls acts))"
    by blast
qed

text \<open>
  Three calls on an open connection, the third made while the first runs; and three calls
  on a connection that is opening, two of them suspended and resumed before the third is
  made.
\<close>

theorem transactions_serialised_witness:
  "(\<exists>s. run (busy_until 0)
          [Call (Fn 1 (Inr JNull)), Call (Fn 2 (Inr JNull)), Start 0, Call (Fn 3 (Inr JNull)),
           Finish 0, Start 1]
          (new_process ''db'' False True) = Some s
       \<and> length (running s) \<le> 1 \<and> subseq (invoked s) (chained s) \<and> chained s = [1, 2, 3])
   \<and> (\<exists>s. run (busy_until 0)
          [Call (Fn 1 (Inr JNull)), Call (Fn 2 (Inr JNull)), Opened, Resume, Resume, Start 0,
           Call (Fn 3 (Inr JNull)), Finish 0, Start 1]
          (new_process ''db'' False False) = Some s
       \<and> chained s @ map fid (holding s) = [1, 2, 3] \<and> subseq (invoked s) [1, 2, 3])"
proof -
  let ?acts = "[Call (Fn 1 (Inr JNull)), Call (Fn 2 (Inr JNull)), Start 0, Call (Fn 3 (Inr JNull)),
           Finish 0, Start 1]"
  let ?held = "[Call (Fn 1 (Inr JNull)), Call (Fn 2 (Inr JNull)), Opened, Resume, Resume, Start 0,
           Call (Fn 3 (Inr JNull)), Finish 0, Start 1]"
  have "run (busy_until 0) ?acts (new_process ''db'' False True) \<noteq> None"
    by code_simp
  then obtain s where s: "run (busy_until 0) ?acts (new_process ''db'' False True) = Some s"
    by blast
  have c: "calls ?acts = [1, 2, 3]" by simp
  from transactions_serialised [of "busy_until 0" ?acts "''db''" False True s] s
  have "length (running s) \<le> 1 \<and> subseq (invoked s) (chained s) \<and> chained s = calls ?acts"
    by blast
  with s have one: "\<exists>s. run (busy_until 0) ?acts (new_process ''db'' False True) = Some s
       \<and> length (running s) \<le> 1 \<and> subseq (invoked s) (chained s) \<and> chained s = [1, 2, 3]"
    by (simp only: c) blast
  have "run (busy_until 0) ?held (new_process ''db'' False False) \<noteq> None"
    by code_simp
  then obtain t where t: "run (busy_until 0) ?held (new_process ''db'' False False) = Some t"
    by blast
  have n: "no_overtaking (busy_until 0) ?held (new_process ''db'' False False)"
    by code_simp
  have h: "calls ?held = [1, 2, 3]" by simp
  from transactions_serialised [of "busy_until 0" ?held "''db''" False False t] t n
  have "chained t @ map fid (holding t) = calls ?held \<and> subseq (invoked t) (calls ?held)"
    by blast
  with t have two: "\<exists>s. run (busy_until 0) ?held (new_process ''db'' False False) = Some s
       \<and> chained s @ map fid (holding s) = [1, 2, 3] \<and> subseq (invoked s) [1, 2, 3]"
    by (simp only: h) blast
  from one two show ?thesis by blast
qed

text \<open>
  Claim C7 as stated says that the functions run in the order of the calls. On a connection
  that is not open yet they need not. \<open>withTransaction(f1)\<close> is called first and is
  suspended at \<open>await this._hold('transaction')\<close>; \<open>_openDB\<close> sets \<open>this._sqlite\<close>;
  a callback registered on \<open>dbP\<close> before the call (as in
  \<open>db.open().then(() => db.withTransaction(f2)); db.withTransaction(f1)\<close>) runs first,
  finds \<open>this._sqlite\<close> set and chains \<open>f2\<close> at once; only then does the call of \<open>f1\<close>
  come back from \<open>_hold\<close> and chain, behind \<open>f2\<close>, whose transaction has started by
  then. \<open>f2\<close> runs before \<open>f1\<close>: the call of \<open>f2\<close> overtakes.
\<close>

theorem call_order_not_kept:
  "calls [Call (Fn 1 (Inr JNull)), Opened, Call (Fn 2 (Inr JNull)), Start 0, Resume, Finish 0,
          Start 1, Finish 1] = [1, 2]
   \<and> map_option invoked
        (run (busy_until 0)
           [Call (Fn 1 (Inr JNull)), Opened, Call (Fn 2 (Inr JNull)), Start 0, Resume, Finish 0,
            Start 1, Finish 1]
           (new_process ''db'' False False)) = Some [2, 1]
   \<and> overtakes (Call (Fn 2 (Inr JNull)))
        (the (run (busy_until 0) [Call (Fn 1 (Inr JNull)), Opened] (new_process ''db'' False False)))"
  by code_simp

section \<open>Properties of the event dispatch engine\<close>






text \<open>The phases keep the version of the event, the log and, but for the apply phase, \<open>V\<close>.\<close>

lemma append_children_sel [simp]:
  "e_v (append_children rqs ev) = e_v ev" "e_type (append_children rqs ev) = e_type ev"
  by (simp_all add: append_children_def)

lemma preprocess_phase_v: "preprocess_phase ms isMain st ev = Inr ev1 \<Longrightarrow> e_v ev1 = e_v ev"
proof (induction ms arbitrary: ev)
  case Nil
  then show ?case by simp
next
  case (Cons m ms)
  show ?case
  proof (cases "m_preprocessor m")
    case None
    with Cons show ?thesis by simp
  next
    case (Some p)
    obtain out rqs where p: "p (handler_context (m_name m) isMain st ev) = (out, rqs)"
      by (cases "p (handler_context (m_name m) isMain st ev)")
    show ?thesis
    proof (cases out)
      case Unchanged
      with Cons.prems Some p have "preprocess_phase ms isMain st (append_children rqs ev) = Inr ev1"
        by simp
      from Cons.IH [OF this] show ?thesis by simp
    next
      case (Changed t v' d)
      with Cons.prems Some p obtain ty where
        "preprocess_phase ms isMain st
           (append_children rqs (Event (e_v ev) ty d (e_result ev) (e_events ev) (e_error ev)))
         = Inr ev1"
        by (cases t) (auto split: if_splits)
      from Cons.IH [OF this] show ?thesis by simp
    next
      case (ReturnedError x)
      with Cons.prems Some p show ?thesis by simp
    qed
  qed
qed

lemma reduce_phase_v: "reduce_phase ms isMain st ev res = Inr (ev2, res') \<Longrightarrow> e_v ev2 = e_v ev"
proof (induction ms arbitrary: ev res)
  case Nil
  then show ?case by simp
next
  case (Cons m ms)
  show ?case
  proof (cases "m_reducer m")
    case None
    with Cons show ?thesis by simp
  next
    case (Some r)
    show ?thesis
    proof (cases "r (handler_context (m_name m) isMain st ev)")
      case (Inl e)
      with Cons.prems Some show ?thesis by simp
    next
      case (Inr out)
      obtain red evs rqs where "out = (red, evs, rqs)" by (cases out)
      with Cons.prems Some Inr have
        "reduce_phase ms isMain st (append_children (rqs @ evs) ev)
           (case red of None \<Rightarrow> res | Some rd \<Rightarrow> res @ [(m_name m, rd)]) = Inr (ev2, res')"
        by simp
      from Cons.IH [OF this] show ?thesis by simp
    qed
  qed
qed

lemma apply_phase_frame:
  "apply_phase res isMain n t = Inr t1
     \<Longrightarrow> t_version t1 = (if isMain then n else t_version t) \<and> t_visited t1 = t_visited t"
  by (auto simp: apply_phase_def split: sum.splits)

lemma derive_phase_frame:
  "derive_phase ms isMain ev t = Inr (ev3, t2)
     \<Longrightarrow> t_version t2 = t_version t \<and> t_visited t2 = t_visited t \<and> e_type ev3 = e_type ev"
proof (induction ms arbitrary: ev t)
  case Nil
  then show ?case by simp
next
  case (Cons m ms)
  show ?case
  proof (cases "m_deriver m")
    case None
    with Cons show ?thesis by simp
  next
    case (Some dv)
    show ?thesis
    proof (cases "dv (handler_context (m_name m) isMain (t_store t) ev)")
      case (Inl e)
      with Cons.prems Some show ?thesis by simp
    next
      case (Inr out)
      obtain st rqs where "out = (st, rqs)" by (cases out)
      with Cons.prems Some Inr have
        "derive_phase ms isMain (append_children rqs ev) (t\<lparr>t_store := st\<rparr>) = Inr (ev3, t2)"
        by simp
      from Cons.IH [OF this] show ?thesis by simp
    qed
  qed
qed

text \<open>What one node does, given what its children do.\<close>

lemma process_node_Suc_Inr:
  assumes "process_node ms (Suc n) path isMain ev t = Inr (ev', t')"
  obtains ev1 ev2 res t1 ev3 t2 cs where
    "preprocess_phase ms isMain (t_store t) ev = Inr ev1"
    "reduce_phase ms isMain (t_store t) ev1 [] = Inr (ev2, res)"
    "apply_phase res isMain (e_v ev2) t = Inr t1"
    "derive_phase ms isMain ev2 t1 = Inr (ev3, t2)"
    "process_children ms n (path @ [e_type ev3]) (e_events ev3)
       (t2\<lparr>t_visited := t_visited t2 @ [e_type ev3]\<rparr>) = Inr (cs, t')"
    "ev' = Event (e_v ev3) (e_type ev3) (e_data ev3) (Some res) cs (e_error ev3)"
  using assms by (auto split: sum.splits prod.splits)

lemma process_children_Cons_Inr:
  assumes "process_children ms n path (c # cs) t = Inr (cs', t')"
  obtains c' t1 cs1 where
    "process_node ms n path False c t = Inr (c', t1)"
    "process_children ms n path cs t1 = Inr (cs1, t')"
    "cs' = c' # cs1"
  using assms by (auto split: sum.splits prod.splits)



lemma traversal_version:
  "(\<forall>ev' t'. process_node ms n path isMain ev t = Inr (ev', t')
       \<longrightarrow> t_version t' = (if isMain then e_v ev else t_version t))"
  "(\<forall>cs' t'. process_children ms n path cs t = Inr (cs', t') \<longrightarrow> t_version t' = t_version t)"
proof (induction ms n path isMain ev t and ms n path cs t rule: process_node_process_children.induct)
  case (1 ms path isMain ev t)
  show ?case by simp
next
  case (2 ms n path isMain ev t)
  show ?case
  proof (intro allI impI)
    fix ev' t' assume a: "process_node ms (Suc n) path isMain ev t = Inr (ev', t')"
    from a obtain ev1 ev2 res t1 ev3 t2 cs where
      p: "preprocess_phase ms isMain (t_store t) ev = Inr ev1"
         "reduce_phase ms isMain (t_store t) ev1 [] = Inr (ev2, res)"
         "apply_phase res isMain (e_v ev2) t = Inr t1"
         "derive_phase ms isMain ev2 t1 = Inr (ev3, t2)"
         "process_children ms n (path @ [e_type ev3]) (e_events ev3)
            (t2\<lparr>t_visited := t_visited t2 @ [e_type ev3]\<rparr>) = Inr (cs, t')"
      by (rule process_node_Suc_Inr)
    from "2.IH" [OF p(1) p(2) refl p(3) p(4) refl] p(5)
    have "t_version t' = t_version (t2\<lparr>t_visited := t_visited t2 @ [e_type ev3]\<rparr>)"
      by blast
    moreover have "t_version t2 = (if isMain then e_v ev2 else t_version t)"
      using apply_phase_frame [OF p(3)] derive_phase_frame [OF p(4)] by simp
    moreover have "e_v ev2 = e_v ev"
      using preprocess_phase_v [OF p(1)] reduce_phase_v [OF p(2)] by simp
    ultimately show "t_version t' = (if isMain then e_v ev else t_version t)"
      by simp
  qed
next
  case (3 ms n path t)
  show ?case by simp
next
  case (4 ms n path c cs t)
  show ?case
  proof (intro allI impI)
    fix cs' t' assume a: "process_children ms n path (c # cs) t = Inr (cs', t')"
    from a obtain c' t1 cs1 where
      p: "process_node ms n path False c t = Inr (c', t1)"
         "process_children ms n path cs t1 = Inr (cs1, t')"
      by (rule process_children_Cons_Inr)
    from "4.IH"(1) p(1) have "t_version t1 = t_version t" by simp
    moreover from "4.IH"(2) [OF p(1) refl] p(2) have "t_version t' = t_version t1" by blast
    ultimately show "t_version t' = t_version t" by simp
  qed
qed

lemma handle_root_version: "version (snd (handle_root ms maxDepth ev s)) = e_v ev"
proof -
  let ?ev0 = "Event (e_v ev) (e_type ev) (e_data ev) None [] []"
  let ?t = "\<lparr>t_store = store s, t_version = version s, t_visited = []\<rparr>"
  show ?thesis
  proof (cases "process_node ms (Suc maxDepth) [] True ?ev0 ?t")
    case (Inl f)
    then show ?thesis by (simp add: handle_root_def Let_def)
  next
    case (Inr r)
    obtain ev' t' where r: "r = (ev', t')" by (cases r)
    with Inr traversal_version(1) [of ms "Suc maxDepth" "[]" True ?ev0 ?t]
    have "t_version t' = e_v ev" by simp
    with Inr r show ?thesis by (simp add: handle_root_def Let_def)
  qed
qed












text \<open>No event tree that is processed with success has more levels than the budget.\<close>

lemma foldr_max_le: "(\<forall>x\<in>set xs. x \<le> n) \<Longrightarrow> foldr max xs 0 \<le> (n::nat)"
  by (induction xs) simp_all

lemma depth_bound:
  "(\<forall>ev' t'. process_node ms n path isMain ev t = Inr (ev', t') \<longrightarrow> depth ev' \<le> n)"
  "(\<forall>cs' t'. process_children ms n path cs t = Inr (cs', t') \<longrightarrow> (\<forall>c\<in>set cs'. depth c \<le> n))"
proof (induction ms n path isMain ev t and ms n path cs t rule: process_node_process_children.induct)
  case (1 ms path isMain ev t)
  show ?case by simp
next
  case (2 ms n path isMain ev t)
  show ?case
  proof (intro allI impI)
    fix ev' t' assume a: "process_node ms (Suc n) path isMain ev t = Inr (ev', t')"
    from a obtain ev1 ev2 res t1 ev3 t2 cs where
      p: "preprocess_phase ms isMain (t_store t) ev = Inr ev1"
         "reduce_phase ms isMain (t_store t) ev1 [] = Inr (ev2, res)"
         "apply_phase res isMain (e_v ev2) t = Inr t1"
         "derive_phase ms isMain ev2 t1 = Inr (ev3, t2)"
         "process_children ms n (path @ [e_type ev3]) (e_events ev3)
            (t2\<lparr>t_visited := t_visited t2 @ [e_type ev3]\<rparr>) = Inr (cs, t')"
         "ev' = Event (e_v ev3) (e_type ev3) (e_data ev3) (Some res) cs (e_error ev3)"
      by (rule process_node_Suc_Inr)
    from "2.IH" [OF p(1) p(2) refl p(3) p(4) refl] p(5)
    have "\<forall>c\<in>set cs. depth c \<le> n" by blast
    then have "foldr max (map depth cs) 0 \<le> n"
      by (intro foldr_max_le) simp
    then show "depth ev' \<le> Suc n"
      by (simp add: p(6))
  qed
next
  case (3 ms n path t)
  show ?case by simp
next
  case (4 ms n path c cs t)
  show ?case
  proof (intro allI impI)
    fix cs' t' assume a: "process_children ms n path (c # cs) t = Inr (cs', t')"
    from a obtain c' t1 cs1 where
      p: "process_node ms n path False c t = Inr (c', t1)"
         "process_children ms n path cs t1 = Inr (cs1, t')" "cs' = c' # cs1"
      by (rule process_children_Cons_Inr)
    from "4.IH"(1) p(1) have "depth c' \<le> n" by blast
    moreover from "4.IH"(2) [OF p(1) refl] p(2)
    have "\<forall>c\<in>set cs1. depth c \<le> n" by blast
    ultimately show "\<forall>c\<in>set cs'. depth c \<le> n"
      by (simp add: p(3))
  qed
qed

lemma dispatch_depth:
  assumes "fst (dispatch ms maxDepth ty d s) = Inr ev'"
  shows "depth ev' \<le> maxDepth + 1"
proof -
  let ?ev0 = "Event (Suc (getMaxV (history s))) ty d None [] []"
  let ?t = "\<lparr>t_store = store s, t_version = version s, t_visited = []\<rparr>"
  from assms obtain t' where "process_node ms (Suc maxDepth) [] True ?ev0 ?t = Inr (ev', t')"
    by (auto simp: dispatch_def queue_add_def handle_root_def Let_def
        split: sum.splits prod.splits simp del: process_node.simps)
  with depth_bound(1) [of ms "Suc maxDepth" "[]" True ?ev0 ?t] show ?thesis
    by simp
qed

text \<open>
  Handlers that dispatch their own type run into the depth guard, whatever the budget.
\<close>

lemma self_dispatching_too_deep:
  assumes "self_dispatching ms ty"
  shows "process_node ms n path isMain (Event v ty d None [] []) t
     = Inl (fail_at (path @ replicate (Suc n) ty)
              (''_handle'', TooDeep (handle_string (path @ replicate (Suc n) ty))))"
proof (induction n arbitrary: path isMain v d t)
  case 0
  show ?case by simp
next
  case (Suc n)
  from assms have "\<exists>ev1 ev2 res t1 ev3 t2 v' d' rest.
      preprocess_phase ms isMain (t_store t) (Event v ty d None [] []) = Inr ev1
      \<and> reduce_phase ms isMain (t_store t) ev1 [] = Inr (ev2, res)
      \<and> apply_phase res isMain (e_v ev2) t = Inr t1
      \<and> derive_phase ms isMain ev2 t1 = Inr (ev3, t2)
      \<and> e_type ev3 = ty
      \<and> e_events ev3 = Event v' ty d' None [] [] # rest"
    unfolding self_dispatching_def by (elim allE)
  then obtain ev1 ev2 res t1 ev3 t2 v' d' rest where
    s: "preprocess_phase ms isMain (t_store t) (Event v ty d None [] []) = Inr ev1"
       "reduce_phase ms isMain (t_store t) ev1 [] = Inr (ev2, res)"
       "apply_phase res isMain (e_v ev2) t = Inr t1"
       "derive_phase ms isMain ev2 t1 = Inr (ev3, t2)"
       "e_type ev3 = ty"
       "e_events ev3 = Event v' ty d' None [] [] # rest"
    by (elim exE conjE)
  have "(path @ [ty]) @ replicate (Suc n) ty = path @ replicate (Suc (Suc n)) ty"
    by simp
  with Suc [of "path @ [ty]" False v' d'] show ?case
    by (simp add: s del: replicate.simps)
qed

lemma handle_string_types:
  "handle_string (replicate k ty) = concat (replicate k (''.'' @ ty)) @ '':deep''"
  by (simp add: handle_string_def map_replicate)

lemma recursive_self_dispatching: "self_dispatching recursive_models ''hi''"
  unfolding self_dispatching_def
  by (simp add: recursive_models_def recursive_deriver_def handler_context_def
      append_children_def child_def apply_phase_def)

lemma matches_deep_handle: "matches_deep (concat (replicate (Suc k) ''.hi'') @ '':deep'')"
  unfolding matches_deep_def
  by (intro exI [of _ "Suc k"] exI [of _ "[]"]) simp



text \<open>
  The scenario with maximum depth 100 and the traversal log of its root event; with the
  model of the test \<open>work\<close>, the siblings \<open>pre\<close> and \<open>der\<close>, each with the child it
  dispatches, what each phase appends on \<open>hi\<close>, and the four children of \<open>hi\<close>, one of
  the preprocessor, two of the reducer and one of the deriver.
\<close>

lemmas work_defs = work_preprocessor_def work_reducer_def work_deriver_def
      handler_context_def append_children_def child_def apply_phase_def apply_reduction_def
      Let_def



text \<open>
  Claim C3, on the engine as the specification describes it. Whatever the models and the
  type, when the handlers dispatch the type they handle without bound, dispatching the
  type returns, for every maximum depth and in every state of the database: the future is
  rejected with the failed event, whose error has under \<open>_handle\<close> the path of
  \<open>maxDepth + 2\<close> times the type, each after a dot, followed by \<open>:deep\<close>; \<open>error\<close> is
  emitted and \<open>result\<close> is not. The deriver of the test, which dispatches \<open>hi\<close> on every
  \<open>hi\<close>, is such a handler, and the regular expression of the test matches its handle
  string. And whatever the handlers do, an event tree that is handled with success has at
  most \<open>maxDepth + 1\<close> levels: no dispatch recurses beyond the maximum depth.
\<close>

theorem recursion_guard:
  "(fst (dispatch ms maxDepth ty d s) = Inr ev' \<longrightarrow> depth ev' \<le> maxDepth + 1)
   \<and> (self_dispatching ms ty \<longrightarrow>
        fst (dispatch ms maxDepth ty d s)
          = Inl (Event (Suc (getMaxV (history s))) ty d None []
               [\<lparr>f_key = ''_handle'', f_path = replicate (maxDepth + 2) ty,
                 f_cause = TooDeep (concat (replicate (maxDepth + 2) (''.'' @ ty)) @ '':deep'')\<rparr>])
        \<and> map fst (emitted (snd (dispatch ms maxDepth ty d s))) = map fst (emitted s) @ [''error''])
   \<and> self_dispatching recursive_models ''hi''
   \<and> matches_deep (concat (replicate (maxDepth + 2) ''.hi'') @ '':deep'')"
proof (intro conjI impI)
  assume "fst (dispatch ms maxDepth ty d s) = Inr ev'"
  then show "depth ev' \<le> maxDepth + 1"
    by (rule dispatch_depth)
next
  assume a: "self_dispatching ms ty"
  have n: "process_node ms (Suc maxDepth) [] True
          (Event (Suc (getMaxV (history s))) ty d None [] []) t
        = Inl \<lparr>f_key = ''_handle'', f_path = replicate (maxDepth + 2) ty,
            f_cause = TooDeep (concat (replicate (maxDepth + 2) (''.'' @ ty)) @ '':deep'')\<rparr>" for t
    using self_dispatching_too_deep [OF a, of "Suc maxDepth" "[]" True _ d t]
      handle_string_types [of "maxDepth + 2" ty]
    by (simp add: fail_at_def del: replicate.simps)
  show "fst (dispatch ms maxDepth ty d s)
        = Inl (Event (Suc (getMaxV (history s))) ty d None []
             [\<lparr>f_key = ''_handle'', f_path = replicate (maxDepth + 2) ty,
               f_cause = TooDeep (concat (replicate (maxDepth + 2) (''.'' @ ty)) @ '':deep'')\<rparr>])"
    by (simp add: n dispatch_def queue_add_def handle_root_def Let_def
        del: replicate.simps process_node.simps)
  show "map fst (emitted (snd (dispatch ms maxDepth ty d s))) = map fst (emitted s) @ [''error'']"
    by (simp add: n dispatch_def queue_add_def handle_root_def Let_def
        del: replicate.simps process_node.simps)
next
  show "self_dispatching recursive_models ''hi''"
    by (rule recursive_self_dispatching)
next
  show "matches_deep (concat (replicate (maxDepth + 2) ''.hi'') @ '':deep'')"
    using matches_deep_handle [of "Suc maxDepth"] by simp
qed

text \<open>
  The guard at maximum depth 2: the model of the test \<open>work\<close>, whose tree has two levels,
  and the deriver of the test \<open>no infinite recursion\<close>.
\<close>

theorem recursion_guard_witness:
  "(\<exists>ev. fst (dispatch work_models 2 ''hi'' JUndefined empty_db) = Inr ev \<and> depth ev \<le> 3)
   \<and> self_dispatching recursive_models ''hi''
   \<and> fst (dispatch recursive_models 2 ''hi'' JUndefined empty_db)
     = Inl (Event 1 ''hi'' JUndefined None []
          [\<lparr>f_key = ''_handle'', f_path = [''hi'', ''hi'', ''hi'', ''hi''],
            f_cause = TooDeep ''.hi.hi.hi.hi:deep''\<rparr>])
   \<and> matches_deep ''.hi.hi.hi.hi:deep''
   \<and> map fst (emitted (snd (dispatch recursive_models 2 ''hi'' JUndefined empty_db))) = [''error'']"
proof -
  have r: "replicate (2 + 2) ''hi'' = [''hi'', ''hi'', ''hi'', ''hi'']"
    "concat (replicate (2 + 2) (''.'' @ ''hi'')) @ '':deep'' = ''.hi.hi.hi.hi:deep''"
    "concat (replicate (2 + 2) ''.hi'') @ '':deep'' = ''.hi.hi.hi.hi:deep''"
    by (simp_all add: numeral_eq_Suc)
  have e: "getMaxV (history empty_db) = 0" "map fst (emitted empty_db) = []"
    by (simp_all add: empty_db_def getMaxV_def)
  have "\<exists>ev. fst (dispatch work_models 2 ''hi'' JUndefined empty_db) = Inr ev"
    by (simp add: work_models_def work_defs dispatch_def queue_add_def handle_root_def
        empty_db_def getMaxV_def numeral_2_eq_2)
  then obtain ev where w: "fst (dispatch work_models 2 ''hi'' JUndefined empty_db) = Inr ev"
    by blast
  from recursion_guard [of work_models 2 "''hi''" JUndefined empty_db ev, THEN conjunct1] w
  have "depth ev \<le> 2 + 1" by blast
  with w have one: "\<exists>ev. fst (dispatch work_models 2 ''hi'' JUndefined empty_db) = Inr ev
      \<and> depth ev \<le> 3"
    by auto
  from recursion_guard [of recursive_models 2 "''hi''" JUndefined empty_db, THEN conjunct2]
  have "self_dispatching recursive_models ''hi''
   \<and> fst (dispatch recursive_models 2 ''hi'' JUndefined empty_db)
     = Inl (Event 1 ''hi'' JUndefined None []
          [\<lparr>f_key = ''_handle'', f_path = [''hi'', ''hi'', ''hi'', ''hi''],
            f_cause = TooDeep ''.hi.hi.hi.hi:deep''\<rparr>])
   \<and> matches_deep ''.hi.hi.hi.hi:deep''
   \<and> map fst (emitted (snd (dispatch recursive_models 2 ''hi'' JUndefined empty_db))) = [''error'']"
    unfolding r e by simp
  with one show ?thesis by blast
qed

text \<open>
  Claim C6, on the engine as the specification describes it. After a root event is handled,
  with success or with failure, \<open>V\<close> is the version of the event; processing children
  leaves \<open>V\<close> as it is.
\<close>

theorem version_follows_root:
  "version (snd (handle_root ms maxDepth ev s)) = e_v ev
   \<and> (process_children ms' n path cs t = Inr (cs', t') \<longrightarrow> t_version t' = t_version t)"
  using handle_root_version [of ms maxDepth ev s] traversal_version(2) [of ms' n path cs t]
  by blast

text \<open>
  An event with version 50 that fails (the deriver finds no row), the event \<open>hi\<close> that is
  handled, and a child processed on its own.
\<close>

theorem version_follows_root_witness:
  "version (snd (handle_root depth_first_models 100 (Event 50 ''foo'' JUndefined None [] [])
      empty_db)) = 50
   \<and> version (snd (dispatch depth_first_models 100 ''hi'' JUndefined empty_db)) = 1
   \<and> (\<exists>cs' t'. process_children recursive_models 1 [] [Event 7 ''x'' JUndefined None [] []]
          \<lparr>t_store = (\<lambda>nm i. None), t_version = 3, t_visited = []\<rparr> = Inr (cs', t')
        \<and> t_version t' = 3)"
proof -
  let ?t = "\<lparr>t_store = (\<lambda>nm i. None), t_version = 3, t_visited = []\<rparr>"
  let ?cs = "[Event 7 ''x'' JUndefined None [] []]"
  have "\<exists>r. process_children recursive_models 1 [] ?cs ?t = Inr r"
    by (simp add: recursive_models_def recursive_deriver_def handler_context_def
        append_children_def child_def apply_phase_def)
  then obtain cs' t' where r: "process_children recursive_models 1 [] ?cs ?t = Inr (cs', t')"
    by auto
  from version_follows_root [of depth_first_models 100 "Event 50 ''foo'' JUndefined None [] []"
      empty_db recursive_models 1 "[]" ?cs ?t cs' t'] r
  have a: "version (snd (handle_root depth_first_models 100
             (Event 50 ''foo'' JUndefined None [] []) empty_db)) = 50"
    and b: "t_version t' = 3"
    by simp_all
  from version_follows_root [of depth_first_models 100 "Event 1 ''hi'' JUndefined None [] []"
      "empty_db\<lparr>history := [Event 1 ''hi'' JUndefined None [] []]\<rparr>"]
  have c: "version (snd (dispatch depth_first_models 100 ''hi'' JUndefined empty_db)) = 1"
    by (simp add: dispatch_def queue_add_def Let_def getMaxV_def empty_db_def)
  from a b c r show ?thesis by auto
qed

end
